theory Spec2Isabelle
  imports Complex_Main "HOL-Library.AList" "HOL-Library.Extended_Nat"
begin

section \<open>Atlas editor: the transform algebra (core/transform.py)\<close>

text \<open>
  Python exceptions are values. Every function of the source that can raise returns
  \<open>error + 'a\<close>, with \<open>Inl\<close> the exception.
\<close>

datatype error = ValueError | AttributeError | KeyError | TypeError

text \<open>\<open>Side = Literal['top', 'right', 'bottom', 'left']\<close>; \<open>SIDES\<close> lists them in that order.\<close>

datatype Side = Top | Right | Bottom | Left

definition SIDES :: "Side list" where
  "SIDES = [Top, Right, Bottom, Left]"

text \<open>
  The frozen dataclass \<open>Transform\<close>. \<open>rotation\<close> is a Python \<open>int\<close>: nothing in the class
  restricts it to 0, 90, 180, 270.
\<close>

record Transform =
  rotation :: int
  flip_x :: bool
  flip_y :: bool

definition mk_Transform :: "int \<Rightarrow> bool \<Rightarrow> bool \<Rightarrow> Transform" where
  "mk_Transform r fx fy = \<lparr>rotation = r, flip_x = fx, flip_y = fy\<rparr>"

definition identity :: Transform where
  "identity = mk_Transform 0 False False"

definition is_identity :: "Transform \<Rightarrow> bool" where
  "is_identity t = (rotation t = 0 \<and> \<not> flip_x t \<and> \<not> flip_y t)"

text \<open>The table \<open>_ROTATION_MAP\<close>, one row per key; a missing key is \<open>None\<close>.\<close>

fun ROTATION_MAP :: "int \<Rightarrow> (Side \<Rightarrow> Side) option" where
  "ROTATION_MAP d =
     (if d = 0 then Some (\<lambda>s. s)
      else if d = 90 then
        Some (\<lambda>s. case s of Top \<Rightarrow> Right | Right \<Rightarrow> Bottom | Bottom \<Rightarrow> Left | Left \<Rightarrow> Top)
      else if d = 180 then
        Some (\<lambda>s. case s of Top \<Rightarrow> Bottom | Right \<Rightarrow> Left | Bottom \<Rightarrow> Top | Left \<Rightarrow> Right)
      else if d = 270 then
        Some (\<lambda>s. case s of Top \<Rightarrow> Left | Right \<Rightarrow> Top | Bottom \<Rightarrow> Right | Left \<Rightarrow> Bottom)
      else None)"

definition rotate_side :: "Side \<Rightarrow> int \<Rightarrow> error + Side" where
  "rotate_side side degrees =
     (let d = degrees mod 360 in
      case ROTATION_MAP d of None \<Rightarrow> Inl ValueError | Some m \<Rightarrow> Inr (m side))"

fun FLIP_X_MAP :: "Side \<Rightarrow> Side" where
  "FLIP_X_MAP Top = Top"
| "FLIP_X_MAP Right = Left"
| "FLIP_X_MAP Bottom = Bottom"
| "FLIP_X_MAP Left = Right"

fun FLIP_Y_MAP :: "Side \<Rightarrow> Side" where
  "FLIP_Y_MAP Top = Bottom"
| "FLIP_Y_MAP Right = Right"
| "FLIP_Y_MAP Bottom = Top"
| "FLIP_Y_MAP Left = Left"

text \<open>\<open>flip_side(side, axis)\<close>; the axis is \<open>True\<close> for \<open>'x'\<close> and \<open>False\<close> for \<open>'y'\<close>.\<close>

definition flip_side :: "Side \<Rightarrow> bool \<Rightarrow> Side" where
  "flip_side side axis_x = (if axis_x then FLIP_X_MAP side else FLIP_Y_MAP side)"

fun get_opposite_side :: "Side \<Rightarrow> Side" where
  "get_opposite_side Top = Bottom"
| "get_opposite_side Bottom = Top"
| "get_opposite_side Left = Right"
| "get_opposite_side Right = Left"

definition apply_to_side :: "Transform \<Rightarrow> Side \<Rightarrow> error + Side" where
  "apply_to_side t side =
     (case (if rotation t \<noteq> 0 then rotate_side side (rotation t) else Inr side) of
        Inl e \<Rightarrow> Inl e
      | Inr r1 \<Rightarrow>
          (let r2 = (if flip_x t then flip_side r1 True else r1);
               r3 = (if flip_y t then flip_side r2 False else r2)
           in Inr r3))"

text \<open>
  \<open>inverse_side\<close>: the first side of \<open>SIDES\<close> that the transform sends to \<open>side\<close>;
  an exception of \<open>apply_to_side\<close> leaves the loop, and a finished loop raises.
\<close>

fun inverse_side_loop :: "Transform \<Rightarrow> Side \<Rightarrow> Side list \<Rightarrow> error + Side" where
  "inverse_side_loop t side [] = Inl ValueError"
| "inverse_side_loop t side (original_side # rest) =
     (case apply_to_side t original_side of
        Inl e \<Rightarrow> Inl e
      | Inr s \<Rightarrow> if s = side then Inr original_side else inverse_side_loop t side rest)"

definition inverse_side :: "Transform \<Rightarrow> Side \<Rightarrow> error + Side" where
  "inverse_side t side = inverse_side_loop t side SIDES"

definition normalize :: "Transform \<Rightarrow> Transform" where
  "normalize t =
     (if flip_y t then
        (if flip_x t then mk_Transform ((rotation t + 180) mod 360) False False
         else mk_Transform ((rotation t + 180) mod 360) True False)
      else mk_Transform (rotation t) (flip_x t) (flip_y t))"

definition inverse :: "Transform \<Rightarrow> Transform" where
  "inverse t =
     (let inv_rotation = (360 - rotation t) mod 360;
          (new_flip_x, new_flip_y) =
             (if inv_rotation = 90 \<or> inv_rotation = 270 then (flip_y t, flip_x t)
              else (flip_x t, flip_y t))
      in normalize (mk_Transform inv_rotation new_flip_x new_flip_y))"

text \<open>\<open>t.compose(other)\<close>: \<open>t\<close> first, then \<open>other\<close>.\<close>

definition compose :: "Transform \<Rightarrow> Transform \<Rightarrow> Transform" where
  "compose t other =
     (let (fx1, fy1) =
             (if rotation other = 90 \<or> rotation other = 270 then (flip_y t, flip_x t)
              else (flip_x t, flip_y t));
          new_rotation = (rotation t + rotation other) mod 360;
          new_flip_x = (fx1 \<noteq> flip_x other);
          new_flip_y = (fy1 \<noteq> flip_y other)
      in normalize (mk_Transform new_rotation new_flip_x new_flip_y))"

text \<open>\<open>get_all_transforms\<close>: the three nested loops, in the source's order.\<close>

definition get_all_transforms :: "bool \<Rightarrow> Transform list" where
  "get_all_transforms include_identity =
     filter (\<lambda>t. include_identity \<or> \<not> is_identity t)
       (concat (map (\<lambda>r. concat (map (\<lambda>fx. map (\<lambda>fy. mk_Transform r fx fy) [False, True])
                                      [False, True]))
                    [0, 90, 180, 270]))"


section \<open>Atlas editor: the atlas (models/) and rule propagation (core/propagation.py)\<close>

text \<open>
  The dataclasses \<open>BaseTile\<close>, \<open>Tile\<close>, \<open>AdjacencyRule\<close>, \<open>Settings\<close> and \<open>Atlas\<close>.
  Field names carry a prefix where two classes share a name. A weight is a Python float that
  the modelled code only stores, copies and compares; it is a \<open>real\<close> here.
\<close>

record BaseTile =
  bt_id :: string
  bt_source_path :: string
  bt_width :: int
  bt_height :: int

record Tile =
  t_id :: string
  t_base_tile_id :: string
  t_rotation :: int
  t_flip_x :: bool
  t_flip_y :: bool
  t_enabled :: bool

record AdjacencyRule =
  tile_id :: string
  side :: Side
  neighbor_id :: string
  weight :: real
  auto_generated :: bool

record Settings =
  auto_propagate_rotations :: bool
  auto_propagate_mirrors :: bool

record Atlas =
  version :: string
  settings :: Settings
  base_tiles :: "BaseTile list"
  tiles :: "Tile list"
  rules :: "AdjacencyRule list"
  file_path :: "string option"
  modified :: bool

definition is_original :: "Tile \<Rightarrow> bool" where
  "is_original t = (t_rotation t = 0 \<and> \<not> t_flip_x t \<and> \<not> t_flip_y t)"

text \<open>\<open>Atlas.get_tile\<close>: the first tile with the id.\<close>

definition get_tile :: "Atlas \<Rightarrow> string \<Rightarrow> Tile option" where
  "get_tile a tid = find (\<lambda>t. t_id t = tid) (tiles a)"

definition get_tiles_for_base :: "Atlas \<Rightarrow> string \<Rightarrow> Tile list" where
  "get_tiles_for_base a base_id = filter (\<lambda>t. t_base_tile_id t = base_id) (tiles a)"

text \<open>
  \<open>Atlas.remove_tile\<close> raises before it writes anything. The result is the exception raised,
  if any, and the atlas as the call leaves it.
\<close>

definition remove_tile :: "Atlas \<Rightarrow> string \<Rightarrow> error option \<times> Atlas" where
  "remove_tile a tid =
     (case get_tile a tid of
        Some t \<Rightarrow>
          if is_original t then (Some ValueError, a)
          else (None, a\<lparr>tiles := filter (\<lambda>t. t_id t \<noteq> tid) (tiles a),
                          rules := filter (\<lambda>r. tile_id r \<noteq> tid \<and> neighbor_id r \<noteq> tid) (rules a),
                          modified := True\<rparr>)
      | None \<Rightarrow>
          (None, a\<lparr>tiles := filter (\<lambda>t. t_id t \<noteq> tid) (tiles a),
                     rules := filter (\<lambda>r. tile_id r \<noteq> tid \<and> neighbor_id r \<noteq> tid) (rules a),
                     modified := True\<rparr>))"

text \<open>
  \<open>Atlas.add_rule\<close>: the loop writes the first rule with the key in place and returns it;
  when the loop finds none, a new rule is appended. \<open>add_rule_loop\<close> is the rule list after
  the call, \<open>add_rule\<close> the atlas after the call and the rule returned.
\<close>

fun add_rule_loop ::
  "AdjacencyRule list \<Rightarrow> string \<Rightarrow> Side \<Rightarrow> string \<Rightarrow> real \<Rightarrow> bool \<Rightarrow> AdjacencyRule list" where
  "add_rule_loop [] tid sd nid w ag =
     [\<lparr>tile_id = tid, side = sd, neighbor_id = nid, weight = w, auto_generated = ag\<rparr>]"
| "add_rule_loop (rule # rest) tid sd nid w ag =
     (if tile_id rule = tid \<and> side rule = sd \<and> neighbor_id rule = nid
      then rule\<lparr>weight := w, auto_generated := ag\<rparr> # rest
      else rule # add_rule_loop rest tid sd nid w ag)"

definition add_rule ::
  "Atlas \<Rightarrow> string \<Rightarrow> Side \<Rightarrow> string \<Rightarrow> real \<Rightarrow> bool \<Rightarrow> Atlas \<times> AdjacencyRule" where
  "add_rule a tid sd nid w ag =
     (a\<lparr>rules := add_rule_loop (rules a) tid sd nid w ag, modified := True\<rparr>,
      \<lparr>tile_id = tid, side = sd, neighbor_id = nid, weight = w, auto_generated = ag\<rparr>)"

text \<open>\<open>Atlas.remove_auto_rules\<close>: the number of rules removed and the atlas after the call.\<close>

definition remove_auto_rules :: "Atlas \<Rightarrow> int \<times> Atlas" where
  "remove_auto_rules a =
     (let original_count = int (length (rules a));
          kept = filter (\<lambda>r. \<not> auto_generated r) (rules a);
          removed = original_count - int (length kept)
      in (removed, a\<lparr>rules := kept, modified := (if removed > 0 then True else modified a)\<rparr>))"

definition tile_transform :: "Tile \<Rightarrow> Transform" where
  "tile_transform t = mk_Transform (t_rotation t) (t_flip_x t) (t_flip_y t)"

definition transform_side_between :: "Side \<Rightarrow> Transform \<Rightarrow> Transform \<Rightarrow> error + Side" where
  "transform_side_between sd from_transform to_transform =
     (case inverse_side from_transform sd of
        Inl e \<Rightarrow> Inl e
      | Inr original_side \<Rightarrow> apply_to_side to_transform original_side)"

text \<open>
  The inner loop of \<open>propagate_rule\<close>: the first target variant whose stored fields equal
  the fields of the computed transform.
\<close>

definition find_target_variant :: "Tile list \<Rightarrow> Transform \<Rightarrow> Tile option" where
  "find_target_variant target_variants target_var_transform =
     find (\<lambda>tv. t_rotation tv = rotation target_var_transform
                \<and> t_flip_x tv = flip_x target_var_transform
                \<and> t_flip_y tv = flip_y target_var_transform) target_variants"

text \<open>
  The outer loop of \<open>propagate_rule\<close> over the source variants. An exception raised by
  \<open>_transform_side_between\<close> leaves the loop with the atlas as written so far. The rule
  being propagated is read only; the rules written by \<open>add_rule\<close> have the id of a variant
  that the loop did not skip, which differs from \<open>rule.tile_id\<close>, so the rule object
  itself is not written during the call and is passed here by value.
\<close>

fun propagate_rule_loop ::
  "Atlas \<Rightarrow> AdjacencyRule \<Rightarrow> Transform \<Rightarrow> Transform \<Rightarrow> Tile list \<Rightarrow> Tile list
   \<Rightarrow> AdjacencyRule list \<Rightarrow> Atlas \<times> (error + AdjacencyRule list)" where
  "propagate_rule_loop a rule source_transform target_transform target_variants [] new_rules =
     (a, Inr new_rules)"
| "propagate_rule_loop a rule source_transform target_transform target_variants
     (src_variant # rest) new_rules =
     (if t_id src_variant = tile_id rule
      then propagate_rule_loop a rule source_transform target_transform target_variants rest new_rules
      else
        (let src_var_transform = tile_transform src_variant;
             relative_transform = compose (inverse source_transform) src_var_transform
         in case transform_side_between (side rule) source_transform src_var_transform of
              Inl e \<Rightarrow> (a, Inl e)
            | Inr new_side \<Rightarrow>
                (let target_var_transform = compose target_transform relative_transform
                 in case find_target_variant target_variants target_var_transform of
                      None \<Rightarrow>
                        propagate_rule_loop a rule source_transform target_transform
                          target_variants rest new_rules
                    | Some target_variant \<Rightarrow>
                        (let (a', new_rule) =
                               add_rule a (t_id src_variant) new_side (t_id target_variant)
                                 (weight rule) True
                         in propagate_rule_loop a' rule source_transform target_transform
                              target_variants rest (new_rules @ [new_rule])))))"

definition propagate_rule :: "Atlas \<Rightarrow> AdjacencyRule \<Rightarrow> Atlas \<times> (error + AdjacencyRule list)" where
  "propagate_rule a rule =
     (case (get_tile a (tile_id rule), get_tile a (neighbor_id rule)) of
        (Some source_tile, Some target_tile) \<Rightarrow>
          propagate_rule_loop a rule (tile_transform source_tile) (tile_transform target_tile)
            (get_tiles_for_base a (t_base_tile_id target_tile))
            (get_tiles_for_base a (t_base_tile_id source_tile)) []
      | _ \<Rightarrow> (a, Inr []))"

text \<open>
  \<open>propagate_all_rules\<close>. \<open>manual_rules\<close> holds the rule objects themselves, and
  \<open>remove_auto_rules\<close> leaves exactly these objects, in the same order, as the rule list;
  \<open>add_rule\<close> then writes rules in place or appends. So the \<open>i\<close>-th manual rule is the
  \<open>i\<close>-th rule of the atlas for the whole loop, and the loop reads it there, with whatever
  an earlier propagation wrote into it.
\<close>

fun propagate_all_loop :: "Atlas \<Rightarrow> nat list \<Rightarrow> int \<Rightarrow> Atlas \<times> (error + int)" where
  "propagate_all_loop a [] total_new = (a, Inr total_new)"
| "propagate_all_loop a (i # rest) total_new =
     (case propagate_rule a (rules a ! i) of
        (a', Inl e) \<Rightarrow> (a', Inl e)
      | (a', Inr new_rules) \<Rightarrow> propagate_all_loop a' rest (total_new + int (length new_rules)))"

definition propagate_all_rules :: "Atlas \<Rightarrow> Atlas \<times> (error + int)" where
  "propagate_all_rules a =
     (let manual_rules = filter (\<lambda>r. \<not> auto_generated r) (rules a);
          (removed, a1) = remove_auto_rules a
      in propagate_all_loop a1 [0..<length manual_rules] 0)"


subsection \<open>Atlases used as concrete inputs\<close>

text \<open>
  \<open>Tile(id, base_tile_id, rotation, flip_x, flip_y)\<close>, \<open>AdjacencyRule(...)\<close> and
  \<open>Atlas(base_tiles, tiles, rules)\<close> with the remaining fields at their defaults.
\<close>

definition mk_Tile :: "string \<Rightarrow> string \<Rightarrow> int \<Rightarrow> bool \<Rightarrow> bool \<Rightarrow> Tile" where
  "mk_Tile i b r fx fy =
     \<lparr>t_id = i, t_base_tile_id = b, t_rotation = r, t_flip_x = fx, t_flip_y = fy, t_enabled = True\<rparr>"

definition mk_AdjacencyRule :: "string \<Rightarrow> Side \<Rightarrow> string \<Rightarrow> real \<Rightarrow> bool \<Rightarrow> AdjacencyRule" where
  "mk_AdjacencyRule t s n w ag =
     \<lparr>tile_id = t, side = s, neighbor_id = n, weight = w, auto_generated = ag\<rparr>"

definition mk_Atlas :: "BaseTile list \<Rightarrow> Tile list \<Rightarrow> AdjacencyRule list \<Rightarrow> Atlas" where
  "mk_Atlas bs ts rs =
     \<lparr>version = ''1.0'',
      settings = \<lparr>auto_propagate_rotations = True, auto_propagate_mirrors = True\<rparr>,
      base_tiles = bs, tiles = ts, rules = rs, file_path = None, modified = False\<rparr>"

definition base_A :: BaseTile where
  "base_A = \<lparr>bt_id = ''A'', bt_source_path = ''tiles/A.png'', bt_width = 16, bt_height = 16\<rparr>"

definition base_B :: BaseTile where
  "base_B = \<lparr>bt_id = ''B'', bt_source_path = ''tiles/B.png'', bt_width = 16, bt_height = 16\<rparr>"

text \<open>
  Scenario S3 of the spec: bases \<open>A\<close> and \<open>B\<close>, each with its identity and its \<open>r90\<close>
  variant, and the manual rule \<open>(A, right, B, 100)\<close>.
\<close>

definition atlas_S3 :: Atlas where
  "atlas_S3 = mk_Atlas [base_A, base_B]
     [mk_Tile ''A'' ''A'' 0 False False, mk_Tile ''A_r90'' ''A'' 90 False False,
      mk_Tile ''B'' ''B'' 0 False False, mk_Tile ''B_r90'' ''B'' 90 False False]
     [mk_AdjacencyRule ''A'' Right ''B'' 100 False]"

text \<open>
  Bases \<open>A\<close> and \<open>B\<close>, each with its identity and its vertically flipped variant (the
  variant the editor's flip-vertically button creates), and the manual rule
  \<open>(A, right, B, 100)\<close>.
\<close>

definition atlas_fy :: Atlas where
  "atlas_fy = mk_Atlas [base_A, base_B]
     [mk_Tile ''A'' ''A'' 0 False False, mk_Tile ''A_fy'' ''A'' 0 False True,
      mk_Tile ''B'' ''B'' 0 False False, mk_Tile ''B_fy'' ''B'' 0 False True]
     [mk_AdjacencyRule ''A'' Right ''B'' 100 False]"

text \<open>
  Base \<open>A\<close> with its identity and its \<open>r90\<close> variant, and two manual rules:
  \<open>(A, right, A, 100)\<close> and \<open>(A_r90, bottom, A_r90, 50)\<close>.
\<close>

definition atlas_two_manual :: Atlas where
  "atlas_two_manual = mk_Atlas [base_A]
     [mk_Tile ''A'' ''A'' 0 False False, mk_Tile ''A_r90'' ''A'' 90 False False]
     [mk_AdjacencyRule ''A'' Right ''A'' 100 False,
      mk_AdjacencyRule ''A_r90'' Bottom ''A_r90'' 50 False]"

section \<open>WFC viewer: tiles and rules (core/tile.py)\<close>

text \<open>
  The dataclasses \<open>TileVariant\<close> (without its pixmap cache) and \<open>Rule\<close>. A Python dict
  with string keys is an association list in insertion order: \<open>map_of\<close> reads a key,
  \<open>AList.update\<close> writes one (in place when the key exists, at the end otherwise).
\<close>

record TileVariant =
  v_id :: string
  v_base_tile_id :: string
  v_rotation :: int
  v_flip_x :: bool
  v_flip_y :: bool
  v_enabled :: bool

record Rule =
  r_tile :: string
  r_side :: Side
  r_neighbor :: string
  r_weight :: real
  r_auto :: bool

type_synonym 'v str_dict = "(string \<times> 'v) list"

text \<open>
  \<open>TileAtlas\<close>: the values of the \<open>tiles\<close> dict in insertion order (the modelled code reads
  \<open>tiles.values()\<close> only), the rule list and the two lookup tables. Every entry of
  \<open>_adjacency\<close> is created with exactly the four sides as keys, so it is a function of the
  side; \<open>_reverse_adjacency\<close> is read with \<open>.get(side, {})\<close>, so the dict without keys that
  \<open>__init__\<close> creates is the function that is empty on every side. The fields \<open>version\<close>,
  \<open>settings\<close> and \<open>base_tiles\<close> (images) are not read by the engine and are left out.
\<close>

record TileAtlas =
  ta_tiles :: "TileVariant list"
  ta_rules :: "Rule list"
  adjacency :: "(Side \<Rightarrow> real str_dict) str_dict"
  reverse_adjacency :: "Side \<Rightarrow> (string set) str_dict"

text \<open>
  The loop of \<open>build_adjacency_lookup\<close>. Reading an entry that the loop has just created
  when it was missing is one \<open>case\<close> with the fresh entry as the \<open>None\<close> branch.
\<close>

fun build_adjacency_loop ::
  "Rule list \<Rightarrow> (Side \<Rightarrow> real str_dict) str_dict \<Rightarrow> (Side \<Rightarrow> (string set) str_dict)
   \<Rightarrow> (Side \<Rightarrow> real str_dict) str_dict \<times> (Side \<Rightarrow> (string set) str_dict)" where
  "build_adjacency_loop [] adj radj = (adj, radj)"
| "build_adjacency_loop (rule # rest) adj radj =
     (let by_side = (case map_of adj (r_tile rule) of None \<Rightarrow> (\<lambda>sd. []) | Some m \<Rightarrow> m);
          adj' = AList.update (r_tile rule)
                   (by_side(r_side rule :=
                      AList.update (r_neighbor rule) (r_weight rule) (by_side (r_side rule)))) adj;
          allowing = (case map_of (radj (r_side rule)) (r_neighbor rule) of
                        None \<Rightarrow> {} | Some ts \<Rightarrow> ts);
          radj' = radj(r_side rule :=
                    AList.update (r_neighbor rule) (insert (r_tile rule) allowing)
                      (radj (r_side rule)))
      in build_adjacency_loop rest adj' radj')"

definition build_adjacency_lookup :: "TileAtlas \<Rightarrow> TileAtlas" where
  "build_adjacency_lookup a =
     (let (adj, radj) = build_adjacency_loop (ta_rules a) [] (\<lambda>sd. [])
      in a\<lparr>adjacency := adj, reverse_adjacency := radj\<rparr>)"

definition get_valid_neighbors :: "TileAtlas \<Rightarrow> string \<Rightarrow> Side \<Rightarrow> real str_dict" where
  "get_valid_neighbors a tid sd =
     (case map_of (adjacency a) tid of None \<Rightarrow> [] | Some m \<Rightarrow> m sd)"

definition get_tiles_allowing_neighbor :: "TileAtlas \<Rightarrow> Side \<Rightarrow> string \<Rightarrow> string set" where
  "get_tiles_allowing_neighbor a sd nid =
     (case map_of (reverse_adjacency a sd) nid of None \<Rightarrow> {} | Some ts \<Rightarrow> ts)"

definition can_be_neighbor :: "TileAtlas \<Rightarrow> string \<Rightarrow> Side \<Rightarrow> string \<Rightarrow> bool" where
  "can_be_neighbor a tid sd nid \<longleftrightarrow> nid \<in> set (map fst (get_valid_neighbors a tid sd))"

definition get_enabled_tile_ids :: "TileAtlas \<Rightarrow> string set" where
  "get_enabled_tile_ids a = set (map v_id (filter v_enabled (ta_tiles a)))"

section \<open>WFC viewer: the engine (core/wfc_engine.py)\<close>

datatype EngineState = IDLE | RUNNING | PAUSED | FINISHED | CONTRADICTION

record CellState =
  c_x :: int
  c_y :: int
  possibilities :: "string set"
  collapsed_tile :: "string option"
  locked :: bool

definition is_collapsed :: "CellState \<Rightarrow> bool" where
  "is_collapsed c = (collapsed_tile c \<noteq> None)"

definition entropy :: "CellState \<Rightarrow> nat" where
  "entropy c = (if is_collapsed c then 0 else card (possibilities c))"

text \<open>The Qt signals of the engine; emitting one appends it to the log \<open>emitted\<close>.\<close>

datatype Signal =
  cell_collapsed int int string
| cell_updated int int
| contradiction_found int int
| state_changed EngineState
| finished bool
| progress_updated int int

text \<open>
  The engine object. \<open>cells\<close> is the dict from positions to cell objects, in insertion
  order; a cell object is reachable through the dict only, so writing a field of a cell is
  \<open>AList.update\<close> at its key. The timer is its \<open>isActive\<close> flag.
\<close>

record WFCEngine =
  atlas :: "TileAtlas option"
  width :: int
  height :: int
  cells :: "((int \<times> int) \<times> CellState) list"
  state :: EngineState
  timer_active :: bool
  step_delay :: int
  collapsed_count :: int
  total_cells :: int
  emitted :: "Signal list"

text \<open>\<open>WFCEngine.__init__\<close>.\<close>

definition new_engine :: WFCEngine where
  "new_engine = \<lparr>atlas = None, width = 0, height = 0, cells = [], state = IDLE,
                  timer_active = False, step_delay = 50, collapsed_count = 0, total_cells = 0,
                  emitted = []\<rparr>"

text \<open>The setter of the property \<open>state\<close>.\<close>

definition set_state :: "WFCEngine \<Rightarrow> EngineState \<Rightarrow> WFCEngine" where
  "set_state s v =
     (if state s \<noteq> v then s\<lparr>state := v, emitted := emitted s @ [state_changed v]\<rparr> else s)"

definition get_cell :: "WFCEngine \<Rightarrow> int \<Rightarrow> int \<Rightarrow> CellState option" where
  "get_cell s x y = map_of (cells s) (x, y)"

definition priv_get_neighbors :: "WFCEngine \<Rightarrow> int \<Rightarrow> int \<Rightarrow> (int \<times> int) list" where
  "priv_get_neighbors s x y =
     filter (\<lambda>(nx, ny). 0 \<le> nx \<and> nx < width s \<and> 0 \<le> ny \<and> ny < height s)
       (map (\<lambda>(dx, dy). (x + dx, y + dy)) [(-1, 0), (1, 0), (0, -1), (0, 1)])"

definition priv_get_neighbors_with_sides ::
  "WFCEngine \<Rightarrow> int \<Rightarrow> int \<Rightarrow> (int \<times> int \<times> Side) list" where
  "priv_get_neighbors_with_sides s x y =
     filter (\<lambda>(nx, ny, sd). 0 \<le> nx \<and> nx < width s \<and> 0 \<le> ny \<and> ny < height s)
       (map (\<lambda>(dx, dy, sd). (x + dx, y + dy, sd))
          [(-1, 0, Left), (1, 0, Right), (0, -1, Top), (0, 1, Bottom)])"

text \<open>
  \<open>initialize\<close>: the dict is cleared and filled row by row, so its insertion order is
  \<open>y\<close>-major.
\<close>

definition initialize :: "WFCEngine \<Rightarrow> TileAtlas \<Rightarrow> int \<Rightarrow> int \<Rightarrow> WFCEngine" where
  "initialize s a w h =
     (let enabled_tiles = get_enabled_tile_ids a;
          s1 = s\<lparr>atlas := Some a, width := w, height := h,
                 cells := concat (map (\<lambda>y. map (\<lambda>x. ((x, y),
                             \<lparr>c_x = x, c_y = y, possibilities = enabled_tiles,
                              collapsed_tile = None, locked = False\<rparr>)) [0..w - 1]) [0..h - 1]),
                 collapsed_count := 0, total_cells := w * h\<rparr>;
          s2 = set_state s1 IDLE
      in s2\<lparr>emitted := emitted s2 @ [progress_updated 0 (total_cells s2)]\<rparr>)"

text \<open>
  The computation of the valid set, which the source writes out three times (in \<open>_step\<close>,
  in \<open>_propagate\<close> and in \<open>get_valid_tiles_for_cell\<close>): start from the enabled tiles and
  intersect, for every collapsed neighbour, with what the neighbour allows on its opposite
  side and with the tiles that allow the neighbour on this side.
\<close>

fun constrain ::
  "TileAtlas \<Rightarrow> ((int \<times> int) \<times> CellState) list \<Rightarrow> (int \<times> int \<times> Side) list \<Rightarrow> string set
   \<Rightarrow> string set" where
  "constrain a cs [] valid = valid"
| "constrain a cs ((nx, ny, sd) # rest) valid =
     (case map_of cs (nx, ny) of
        None \<Rightarrow> constrain a cs rest valid
      | Some neighbor \<Rightarrow>
          (case collapsed_tile neighbor of
             None \<Rightarrow> constrain a cs rest valid
           | Some neighbor_tile \<Rightarrow>
               (let opposite = get_opposite_side sd;
                    neighbor_allows = set (map fst (get_valid_neighbors a neighbor_tile opposite));
                    i_allow = get_tiles_allowing_neighbor a sd neighbor_tile
                in constrain a cs rest ((valid \<inter> neighbor_allows) \<inter> i_allow))))"

definition valid_tiles :: "TileAtlas \<Rightarrow> WFCEngine \<Rightarrow> int \<Rightarrow> int \<Rightarrow> string set" where
  "valid_tiles a s x y =
     constrain a (cells s) (priv_get_neighbors_with_sides s x y) (get_enabled_tile_ids a)"

definition get_valid_tiles_for_cell :: "WFCEngine \<Rightarrow> int \<Rightarrow> int \<Rightarrow> string set" where
  "get_valid_tiles_for_cell s x y =
     (case atlas s of None \<Rightarrow> {} | Some a \<Rightarrow> valid_tiles a s x y)"

text \<open>The neighbours that \<open>_propagate\<close> appends to its queue: those present and not collapsed.\<close>

definition uncollapsed_neighbors :: "WFCEngine \<Rightarrow> int \<Rightarrow> int \<Rightarrow> (int \<times> int) list" where
  "uncollapsed_neighbors s x y =
     map (\<lambda>(nx, ny, sd). (nx, ny))
       (filter (\<lambda>(nx, ny, sd). case map_of (cells s) (nx, ny) of
                                  None \<Rightarrow> False | Some n \<Rightarrow> \<not> is_collapsed n)
          (priv_get_neighbors_with_sides s x y))"

text \<open>
  The \<open>while queue\<close> loop of \<open>_propagate\<close>. Without an atlas the first cell that is
  recomputed raises \<open>AttributeError\<close>.
\<close>

function priv_propagate_loop :: "WFCEngine \<Rightarrow> (int \<times> int) list \<Rightarrow> error + WFCEngine" where
  "priv_propagate_loop s [] = Inr s"
| "priv_propagate_loop s ((x, y) # queue) =
     (case map_of (cells s) (x, y) of
        None \<Rightarrow> priv_propagate_loop s queue
      | Some cell \<Rightarrow>
          if is_collapsed cell then priv_propagate_loop s queue
          else
            (case atlas s of
               None \<Rightarrow> Inl AttributeError
             | Some a \<Rightarrow>
                 if valid_tiles a s x y \<noteq> possibilities cell then
                   (if card (valid_tiles a s x y) = 0 then
                      Inr (s\<lparr>cells := AList.update (x, y)
                                         (cell\<lparr>possibilities := valid_tiles a s x y\<rparr>) (cells s),
                             emitted := emitted s @ [cell_updated x y]\<rparr>)
                    else if card (valid_tiles a s x y) = 1 then
                      priv_propagate_loop
                        (s\<lparr>cells := AList.update (x, y)
                                      (cell\<lparr>possibilities := valid_tiles a s x y,
                                            collapsed_tile := Some (the_elem (valid_tiles a s x y))\<rparr>)
                                      (cells s),
                           collapsed_count := collapsed_count s + 1,
                           emitted := emitted s @
                             [cell_updated x y,
                              cell_collapsed x y (the_elem (valid_tiles a s x y)),
                              progress_updated (collapsed_count s + 1) (total_cells s)]\<rparr>)
                        (queue @ uncollapsed_neighbors
                           (s\<lparr>cells := AList.update (x, y)
                                      (cell\<lparr>possibilities := valid_tiles a s x y,
                                            collapsed_tile := Some (the_elem (valid_tiles a s x y))\<rparr>)
                                      (cells s)\<rparr>) x y)
                    else
                      priv_propagate_loop
                        (s\<lparr>cells := AList.update (x, y)
                                      (cell\<lparr>possibilities := valid_tiles a s x y\<rparr>) (cells s),
                           emitted := emitted s @ [cell_updated x y]\<rparr>)
                        (queue @ uncollapsed_neighbors
                           (s\<lparr>cells := AList.update (x, y)
                                      (cell\<lparr>possibilities := valid_tiles a s x y\<rparr>) (cells s)\<rparr>) x y))
                 else priv_propagate_loop s queue))"
  by pat_completeness auto

definition priv_propagate :: "WFCEngine \<Rightarrow> int \<Rightarrow> int \<Rightarrow> error + WFCEngine" where
  "priv_propagate s start_x start_y =
     priv_propagate_loop s (uncollapsed_neighbors s start_x start_y)"


text \<open>
  \<open>lock_cell\<close>. The guard of the increment is evaluated on the cell as just written.
\<close>

definition lock_cell :: "WFCEngine \<Rightarrow> int \<Rightarrow> int \<Rightarrow> string \<Rightarrow> error + WFCEngine" where
  "lock_cell s x y tid =
     (case map_of (cells s) (x, y) of
        None \<Rightarrow> Inr s
      | Some cell0 \<Rightarrow>
          (let cell = cell0\<lparr>collapsed_tile := Some tid, locked := True, possibilities := {tid}\<rparr>;
               s1 = s\<lparr>cells := AList.update (x, y) cell (cells s)\<rparr>;
               s2 = (if \<not> is_collapsed cell \<or> collapsed_tile cell \<noteq> Some tid
                     then s1\<lparr>collapsed_count := collapsed_count s1 + 1\<rparr> else s1);
               s3 = s2\<lparr>emitted := emitted s2 @
                        [cell_collapsed x y tid,
                         progress_updated (collapsed_count s2) (total_cells s2)]\<rparr>
           in priv_propagate s3 x y))"

text \<open>
  The last loop of \<open>unlock_cell\<close>: \<open>self.cells[(nx, ny)]\<close> raises \<open>KeyError\<close> on a
  missing key.
\<close>

fun repropagate :: "WFCEngine \<Rightarrow> (int \<times> int) list \<Rightarrow> error + WFCEngine" where
  "repropagate s [] = Inr s"
| "repropagate s ((nx, ny) # rest) =
     (case map_of (cells s) (nx, ny) of
        None \<Rightarrow> Inl KeyError
      | Some n \<Rightarrow>
          if is_collapsed n then
            (case priv_propagate s nx ny of
               Inl e \<Rightarrow> Inl e
             | Inr s' \<Rightarrow> repropagate s' rest)
          else repropagate s rest)"

definition unlock_cell :: "WFCEngine \<Rightarrow> int \<Rightarrow> int \<Rightarrow> error + WFCEngine" where
  "unlock_cell s x y =
     (case map_of (cells s) (x, y) of
        None \<Rightarrow> Inr s
      | Some cell0 \<Rightarrow>
          (case atlas s of
             None \<Rightarrow> Inl AttributeError
           | Some a \<Rightarrow>
               (let was_collapsed = is_collapsed cell0;
                    was_contradiction = (card (possibilities cell0) = 0);
                    cell = cell0\<lparr>locked := False, collapsed_tile := None,
                                 possibilities := get_enabled_tile_ids a\<rparr>;
                    s1 = s\<lparr>cells := AList.update (x, y) cell (cells s)\<rparr>;
                    s2 = (if was_collapsed
                          then s1\<lparr>collapsed_count := collapsed_count s1 - 1\<rparr> else s1);
                    s3 = (if (was_collapsed \<or> was_contradiction)
                             \<and> (state s2 = FINISHED \<or> state s2 = CONTRADICTION)
                          then set_state s2 IDLE else s2);
                    s4 = s3\<lparr>emitted := emitted s3 @
                             [cell_updated x y,
                              progress_updated (collapsed_count s3) (total_cells s3)]\<rparr>
                in repropagate s4 (priv_get_neighbors s4 x y))))"

definition start :: "WFCEngine \<Rightarrow> WFCEngine" where
  "start s =
     (if state s = FINISHED \<or> state s = CONTRADICTION then s
      else (set_state s RUNNING)\<lparr>timer_active := True\<rparr>)"

definition pause :: "WFCEngine \<Rightarrow> WFCEngine" where
  "pause s = (if state s = RUNNING then set_state (s\<lparr>timer_active := False\<rparr>) PAUSED else s)"

text \<open>
  The scan of \<open>_step\<close> over \<open>cells.items()\<close>: \<open>Inl\<close> the first uncollapsed cell without
  possibilities, else \<open>Inr\<close> the candidates. \<open>min_entropy\<close> starts at \<open>float('inf')\<close>.
\<close>

fun scan_cells ::
  "((int \<times> int) \<times> CellState) list \<Rightarrow> enat \<Rightarrow> (int \<times> int) list
   \<Rightarrow> (int \<times> int) + (int \<times> int) list" where
  "scan_cells [] min_entropy candidates = Inr candidates"
| "scan_cells ((pos, cell) # rest) min_entropy candidates =
     (if is_collapsed cell then scan_cells rest min_entropy candidates
      else if entropy cell = 0 then Inl pos
      else if enat (entropy cell) < min_entropy then scan_cells rest (enat (entropy cell)) [pos]
      else if enat (entropy cell) = min_entropy then scan_cells rest min_entropy (candidates @ [pos])
      else scan_cells rest min_entropy candidates)"

definition stop_with_contradiction :: "WFCEngine \<Rightarrow> int \<Rightarrow> int \<Rightarrow> WFCEngine" where
  "stop_with_contradiction s x y =
     (let s1 = set_state (s\<lparr>timer_active := False\<rparr>) CONTRADICTION
      in s1\<lparr>emitted := emitted s1 @ [contradiction_found x y, finished False]\<rparr>)"

text \<open>
  \<open>_step\<close>. The two calls of \<open>random.choice\<close> are the arguments \<open>chosen\<close> (the cell picked
  among the candidates) and \<open>tid\<close> (the tile picked from the valid set); the result is
  \<open>None\<close> when the arguments are not a possible outcome of the two choices. A step that
  ends before a choice is made does not read them.
\<close>

definition priv_step ::
  "WFCEngine \<Rightarrow> int \<times> int \<Rightarrow> string \<Rightarrow> (error + WFCEngine) option" where
  "priv_step s chosen tid =
     (case scan_cells (cells s) \<infinity> [] of
        Inl (cx, cy) \<Rightarrow> Some (Inr (stop_with_contradiction s cx cy))
      | Inr candidates \<Rightarrow>
          if candidates = [] then
            Some (Inr (let s1 = set_state (s\<lparr>timer_active := False\<rparr>) FINISHED
                       in s1\<lparr>emitted := emitted s1 @ [finished True]\<rparr>))
          else if chosen \<notin> set candidates then None
          else
            (case chosen of (x, y) \<Rightarrow>
               (case map_of (cells s) (x, y) of
                  None \<Rightarrow> Some (Inl KeyError)
                | Some cell \<Rightarrow>
                    (case atlas s of
                       None \<Rightarrow> Some (Inl AttributeError)
                     | Some a \<Rightarrow>
                         (let valid_now = valid_tiles a s x y
                          in if valid_now = {} then Some (Inr (stop_with_contradiction s x y))
                             else if tid \<notin> valid_now then None
                             else
                               Some (priv_propagate
                                 (s\<lparr>cells := AList.update (x, y)
                                       (cell\<lparr>collapsed_tile := Some tid, possibilities := {tid}\<rparr>)
                                       (cells s),
                                    collapsed_count := collapsed_count s + 1,
                                    emitted := emitted s @
                                      [cell_collapsed x y tid,
                                       progress_updated (collapsed_count s + 1) (total_cells s)]\<rparr>)
                                 x y))))))"

definition step :: "WFCEngine \<Rightarrow> int \<times> int \<Rightarrow> string \<Rightarrow> (error + WFCEngine) option" where
  "step s chosen tid =
     (if state s = FINISHED \<or> state s = CONTRADICTION then Some (Inr s)
      else priv_step s chosen tid)"

text \<open>
  \<open>reset\<close> locks again every cell that was locked, in the order of the dict, with the tile
  the cell had. \<open>lock_cell\<close> declares \<open>tile_id: str\<close>; a locked cell without a tile would
  pass \<open>None\<close>, which is outside the types of this model and ends the loop with \<open>TypeError\<close>.
\<close>

fun relock :: "WFCEngine \<Rightarrow> ((int \<times> int) \<times> string option) list \<Rightarrow> error + WFCEngine" where
  "relock s [] = Inr s"
| "relock s (((x, y), None) # rest) = Inl TypeError"
| "relock s (((x, y), Some tid) # rest) =
     (case lock_cell s x y tid of
        Inl e \<Rightarrow> Inl e
      | Inr s' \<Rightarrow> relock s' rest)"

definition reset :: "WFCEngine \<Rightarrow> error + WFCEngine" where
  "reset s =
     (case atlas s of
        None \<Rightarrow> Inr s
      | Some a \<Rightarrow>
          (let s1 = s\<lparr>timer_active := False\<rparr>;
               locked_cells = map (\<lambda>(pos, cell). (pos, collapsed_tile cell))
                                (filter (\<lambda>(pos, cell). locked cell) (cells s1))
           in relock (initialize s1 a (width s1) (height s1)) locked_cells))"

definition clear_all :: "WFCEngine \<Rightarrow> WFCEngine" where
  "clear_all s =
     (case atlas s of
        None \<Rightarrow> s
      | Some a \<Rightarrow> initialize (s\<lparr>timer_active := False\<rparr>) a (width s) (height s))"

text \<open>
  \<open>validate_grid\<close> returns its messages as strings. \<open>str_int\<close> is the decimal notation
  that an f-string gives an \<open>int\<close>; the sides print as their literals.
\<close>

definition digit_char :: "nat \<Rightarrow> char" where
  "digit_char d = ''0123456789'' ! d"

fun str_nat :: "nat \<Rightarrow> string" where
  "str_nat n = (if n < 10 then [digit_char n] else str_nat (n div 10) @ [digit_char (n mod 10)])"

definition str_int :: "int \<Rightarrow> string" where
  "str_int i = (if i < 0 then CHR ''-'' # str_nat (nat (- i)) else str_nat (nat i))"

fun side_name :: "Side \<Rightarrow> string" where
  "side_name Top = ''top''"
| "side_name Right = ''right''"
| "side_name Bottom = ''bottom''"
| "side_name Left = ''left''"

definition violation_message :: "int \<Rightarrow> int \<Rightarrow> string \<Rightarrow> string \<Rightarrow> Side \<Rightarrow> string" where
  "violation_message x y tid neighbor_tile sd =
     ''('' @ str_int x @ '','' @ str_int y @ '') '' @ [CHR 0x27] @ tid @ [CHR 0x27]
     @ '' does not allow '' @ [CHR 0x27] @ neighbor_tile @ [CHR 0x27] @ '' on '' @ side_name sd"

definition cell_violations :: "TileAtlas \<Rightarrow> WFCEngine \<Rightarrow> int \<Rightarrow> int \<Rightarrow> string list" where
  "cell_violations a s x y =
     (case get_cell s x y of
        None \<Rightarrow> []
      | Some cell \<Rightarrow>
          (case collapsed_tile cell of
             None \<Rightarrow> []
           | Some tid \<Rightarrow>
               concat (map (\<lambda>(nx, ny, sd).
                  (case get_cell s nx ny of
                     None \<Rightarrow> []
                   | Some neighbor \<Rightarrow>
                       (case collapsed_tile neighbor of
                          None \<Rightarrow> []
                        | Some neighbor_tile \<Rightarrow>
                            if neighbor_tile \<notin> set (map fst (get_valid_neighbors a tid sd))
                            then [violation_message x y tid neighbor_tile sd]
                            else [])))
                 (priv_get_neighbors_with_sides s x y))))"

definition validate_grid :: "WFCEngine \<Rightarrow> string list" where
  "validate_grid s =
     (case atlas s of
        None \<Rightarrow> [''No atlas loaded'']
      | Some a \<Rightarrow>
          concat (map (\<lambda>y. concat (map (\<lambda>x. cell_violations a s x y) [0..width s - 1]))
                    [0..height s - 1]))"

subsection \<open>Driving the engine, and the scenarios of the spec\<close>

text \<open>
  A caller's sequence of calls on one engine; it ends at the first exception. A \<open>Step\<close>
  carries the outcome of its random choices.
\<close>

datatype Call =
  Lock int int string
| Unlock int int
| Step "int \<times> int" string
| Reset
| ClearAll

fun call :: "WFCEngine \<Rightarrow> Call \<Rightarrow> (error + WFCEngine) option" where
  "call s (Lock x y tid) = Some (lock_cell s x y tid)"
| "call s (Unlock x y) = Some (unlock_cell s x y)"
| "call s (Step chosen tid) = step s chosen tid"
| "call s Reset = Some (reset s)"
| "call s ClearAll = Some (Inr (clear_all s))"

fun run :: "WFCEngine \<Rightarrow> Call list \<Rightarrow> (error + WFCEngine) option" where
  "run s [] = Some (Inr s)"
| "run s (c # rest) =
     (case call s c of
        Some (Inr s') \<Rightarrow> run s' rest
      | r \<Rightarrow> r)"

text \<open>What a theorem reads off the engine at the end of a run.\<close>

definition observe :: "(WFCEngine \<Rightarrow> 'a) \<Rightarrow> (error + WFCEngine) option \<Rightarrow> (error + 'a) option" where
  "observe f r = map_option (map_sum id f) r"

text \<open>
  A \<open>TileAtlas\<close> as the loader builds it: enabled variants with the given ids, the rules,
  and the lookup tables built from them.
\<close>

definition mk_TileVariant :: "string \<Rightarrow> TileVariant" where
  "mk_TileVariant i =
     \<lparr>v_id = i, v_base_tile_id = i, v_rotation = 0, v_flip_x = False, v_flip_y = False,
      v_enabled = True\<rparr>"

definition mk_Rule :: "string \<Rightarrow> Side \<Rightarrow> string \<Rightarrow> Rule" where
  "mk_Rule t sd n = \<lparr>r_tile = t, r_side = sd, r_neighbor = n, r_weight = 100, r_auto = False\<rparr>"

definition raw_TileAtlas :: "string list \<Rightarrow> Rule list \<Rightarrow> TileAtlas" where
  "raw_TileAtlas ids rs =
     \<lparr>ta_tiles = map mk_TileVariant ids, ta_rules = rs, adjacency = [],
      reverse_adjacency = (\<lambda>sd. [])\<rparr>"

definition load_TileAtlas :: "string list \<Rightarrow> Rule list \<Rightarrow> TileAtlas" where
  "load_TileAtlas ids rs = build_adjacency_lookup (raw_TileAtlas ids rs)"

text \<open>
  Scenario S5 of the spec: variants \<open>X\<close> and \<open>Y\<close>, the rules \<open>(X, right, X)\<close> and
  \<open>(X, left, X)\<close>, and a grid of two cells side by side.
\<close>

definition atlas_S5 :: TileAtlas where
  "atlas_S5 = load_TileAtlas [''X'', ''Y''] [mk_Rule ''X'' Right ''X'', mk_Rule ''X'' Left ''X'']"

definition engine_S5 :: WFCEngine where
  "engine_S5 = initialize new_engine atlas_S5 2 1"

text \<open>The same atlas on a grid of three cells in a row.\<close>

definition engine_S5_wide :: WFCEngine where
  "engine_S5_wide = initialize new_engine atlas_S5 3 1"

text \<open>
  The rules of scenario S4 of the spec: variants \<open>X\<close> and \<open>Y\<close>, each allowed next to
  itself on all four sides.
\<close>

definition rules_S4 :: "Rule list" where
  "rules_S4 =
     [mk_Rule ''X'' Top ''X'', mk_Rule ''X'' Right ''X'', mk_Rule ''X'' Bottom ''X'',
      mk_Rule ''X'' Left ''X'', mk_Rule ''Y'' Top ''Y'', mk_Rule ''Y'' Right ''Y'',
      mk_Rule ''Y'' Bottom ''Y'', mk_Rule ''Y'' Left ''Y'']"

text \<open>Two cells side by side with the atlas of S4, nothing collapsed.\<close>

definition engine_pair :: WFCEngine where
  "engine_pair = initialize new_engine (load_TileAtlas [''X'', ''Y''] rules_S4) 2 1"

text \<open>
  The same grid as \<open>lock_cell(0, 0, 'X')\<close> passes it to \<open>_propagate\<close>: the cell written,
  its neighbour not yet recomputed.
\<close>

definition engine_pair_X :: WFCEngine where
  "engine_pair_X =
     engine_pair\<lparr>cells := AList.update (0, 0)
        \<lparr>c_x = 0, c_y = 0, possibilities = {''X''}, collapsed_tile = Some ''X'',
         locked = True\<rparr> (cells engine_pair)\<rparr>"

text \<open>
  The same grid with both cells collapsed, to \<open>X\<close> and to \<open>Y\<close>, which no rule allows
  side by side.
\<close>

definition engine_pair_XY :: WFCEngine where
  "engine_pair_XY =
     engine_pair\<lparr>cells :=
        [((0, 0), \<lparr>c_x = 0, c_y = 0, possibilities = {''X''}, collapsed_tile = Some ''X'',
                   locked = True\<rparr>),
         ((1, 0), \<lparr>c_x = 1, c_y = 0, possibilities = {''Y''}, collapsed_tile = Some ''Y'',
                   locked = True\<rparr>)]\<rparr>"

text \<open>The same grid with both cells collapsed to \<open>X\<close>.\<close>

definition engine_pair_XX :: WFCEngine where
  "engine_pair_XX =
     engine_pair\<lparr>cells :=
        [((0, 0), \<lparr>c_x = 0, c_y = 0, possibilities = {''X''}, collapsed_tile = Some ''X'',
                   locked = True\<rparr>),
         ((1, 0), \<lparr>c_x = 1, c_y = 0, possibilities = {''X''}, collapsed_tile = Some ''X'',
                   locked = False\<rparr>)]\<rparr>"

text \<open>The measures of the termination proof of \<open>priv_propagate_loop\<close>.\<close>

definition uncollapsed_count :: "WFCEngine \<Rightarrow> nat" where
  "uncollapsed_count s = length (filter (\<lambda>(p, c). \<not> is_collapsed c) (cells s))"

definition stale_count :: "WFCEngine \<Rightarrow> nat" where
  "stale_count s =
     (case atlas s of
        None \<Rightarrow> 0
      | Some a \<Rightarrow>
          length (filter (\<lambda>((x, y), c). \<not> is_collapsed c \<and> possibilities c \<noteq> valid_tiles a s x y)
                    (cells s)))"


subsection \<open>Predicates of the engine's properties\<close>

text \<open>The directed rule \<open>(t, sd, n)\<close> is in the rule list of the atlas.\<close>

definition has_rule :: "TileAtlas \<Rightarrow> string \<Rightarrow> Side \<Rightarrow> string \<Rightarrow> bool" where
  "has_rule a t sd n \<longleftrightarrow>
     (\<exists>r \<in> set (ta_rules a). r_tile r = t \<and> r_side r = sd \<and> r_neighbor r = n)"

text \<open>
  Tile \<open>t\<close> is admissible at \<open>(x, y)\<close>: for every collapsed neighbour \<open>n\<close> on side \<open>sd\<close> of
  the cell, both \<open>(t, sd, n)\<close> and \<open>(n, opposite(sd), t)\<close> are rules.
\<close>

definition admissible :: "TileAtlas \<Rightarrow> WFCEngine \<Rightarrow> int \<Rightarrow> int \<Rightarrow> string \<Rightarrow> bool" where
  "admissible a s x y t \<longleftrightarrow>
     (\<forall>nx ny sd nb n.
        (nx, ny, sd) \<in> set (priv_get_neighbors_with_sides s x y) \<longrightarrow>
        map_of (cells s) (nx, ny) = Some nb \<longrightarrow> collapsed_tile nb = Some n \<longrightarrow>
        has_rule a t sd n \<and> has_rule a n (get_opposite_side sd) t)"

text \<open>The invariant of a cell, and of all cells of the engine.\<close>

definition cell_ok :: "CellState \<Rightarrow> bool" where
  "cell_ok c \<longleftrightarrow>
     (\<forall>t. collapsed_tile c = Some t \<longrightarrow> possibilities c = {t})
     \<and> (locked c \<longrightarrow> collapsed_tile c \<noteq> None)"

definition cell_inv :: "WFCEngine \<Rightarrow> bool" where
  "cell_inv s \<longleftrightarrow> (\<forall>(p, c) \<in> set (cells s). cell_ok c)"

text \<open>
  What propagation leaves as it is: everything but the cells that are not collapsed, the
  count and the log, which only grows.
\<close>

definition frame :: "WFCEngine \<Rightarrow> WFCEngine \<Rightarrow> bool" where
  "frame s s' \<longleftrightarrow>
     atlas s' = atlas s \<and> state s' = state s \<and> width s' = width s \<and> height s' = height s
     \<and> total_cells s' = total_cells s \<and> timer_active s' = timer_active s
     \<and> step_delay s' = step_delay s \<and> map fst (cells s') = map fst (cells s)
     \<and> (\<exists>ev. emitted s' = emitted s @ ev)
     \<and> (\<forall>p n. map_of (cells s) p = Some n \<and> is_collapsed n \<longrightarrow> map_of (cells s') p = Some n)"


text \<open>
  Two collapsed cells next to each other: the cell \<open>(x, y)\<close> of the grid holds tile \<open>t\<close>,
  and its neighbour on side \<open>sd\<close> holds tile \<open>n\<close>.
\<close>

definition adjacent_collapsed ::
  "WFCEngine \<Rightarrow> int \<Rightarrow> int \<Rightarrow> Side \<Rightarrow> string \<Rightarrow> string \<Rightarrow> bool" where
  "adjacent_collapsed s x y sd t n \<longleftrightarrow>
     0 \<le> x \<and> x < width s \<and> 0 \<le> y \<and> y < height s
     \<and> (\<exists>nx ny c nb. (nx, ny, sd) \<in> set (priv_get_neighbors_with_sides s x y)
           \<and> map_of (cells s) (x, y) = Some c \<and> collapsed_tile c = Some t
           \<and> map_of (cells s) (nx, ny) = Some nb \<and> collapsed_tile nb = Some n)"

text \<open>
  Every tile of a cell that \<open>s'\<close> holds and \<open>s\<close> did not is admissible with respect to the
  neighbours collapsed in \<open>s\<close>.
\<close>

definition written_admissible :: "TileAtlas \<Rightarrow> WFCEngine \<Rightarrow> WFCEngine \<Rightarrow> bool" where
  "written_admissible a s s' \<longleftrightarrow>
     (\<forall>x y c t. ((x, y), c) \<in> set (cells s') \<longrightarrow> ((x, y), c) \<notin> set (cells s) \<longrightarrow>
                t \<in> possibilities c \<longrightarrow> admissible a s x y t)"


section \<open>Properties of the transform algebra\<close>

lemma normalize_unflipped: "\<not> flip_y t \<Longrightarrow> normalize t = t"
  by (simp add: normalize_def mk_Transform_def)

lemma flip_y_normalize: "\<not> flip_y (normalize t)"
  by (simp add: normalize_def mk_Transform_def)

lemma same_sides_same_normal_form:
  "\<forall>t \<in> set (get_all_transforms True). \<forall>u \<in> set (get_all_transforms True).
     (\<forall>s \<in> set SIDES. apply_to_side t s = apply_to_side u s) \<longrightarrow> normalize t = normalize u"
  by code_simp

lemma normalize_keeps_sides:
  "\<forall>t \<in> set (get_all_transforms True). \<forall>s \<in> set SIDES.
     apply_to_side (normalize t) s = apply_to_side t s"
  by code_simp

lemma in_SIDES: "s \<in> set SIDES"
  by (cases s) (simp_all add: SIDES_def)

text \<open>
  C4, as the spec states it, fails: \<open>compose\<close> returns its result normalized, so a transform
  that carries \<open>flip_y\<close> is not returned unchanged by composition with the identity.
  \<open>Transform(0, False, True).compose(Transform(0, False, False))\<close> is
  \<open>Transform(180, True, False)\<close>.
\<close>

theorem compose_identity_counterexample:
  "compose (mk_Transform 0 False True) identity = mk_Transform 180 True False
   \<and> compose (mk_Transform 0 False True) identity \<noteq> mk_Transform 0 False True"
  by (simp add: compose_def identity_def mk_Transform_def normalize_def)

text \<open>
  C4 (amended): for each of the 16 transforms \<open>t\<close>, \<open>t.compose(identity)\<close> and
  \<open>identity.compose(t)\<close> both equal \<open>t.normalize()\<close>, which is \<open>t\<close> itself whenever
  \<open>t.flip_y\<close> is false, and \<open>t.compose(t.inverse())\<close> is the identity transform
  \<open>Transform(0, False, False)\<close>.
\<close>

theorem compose_identity_inverse:
  "\<forall>t \<in> set (get_all_transforms True).
     compose t identity = normalize t \<and> compose identity t = normalize t
     \<and> (\<not> flip_y t \<longrightarrow> compose t identity = t \<and> compose identity t = t)
     \<and> compose t (inverse t) = identity"
  by code_simp

theorem compose_identity_inverse_witness:
  "mk_Transform 90 True False \<in> set (get_all_transforms True)
   \<and> \<not> flip_y (mk_Transform 90 True False)
   \<and> compose (mk_Transform 90 True False) identity = mk_Transform 90 True False
   \<and> compose identity (mk_Transform 90 True False) = mk_Transform 90 True False
   \<and> inverse (mk_Transform 90 True False) = mk_Transform 90 True False
   \<and> compose (mk_Transform 90 True False) (mk_Transform 90 True False) = identity"
proof -
  have m: "mk_Transform 90 True False \<in> set (get_all_transforms True)"
    by code_simp
  have f: "\<not> flip_y (mk_Transform 90 True False)"
    by (simp add: mk_Transform_def)
  have i: "inverse (mk_Transform 90 True False) = mk_Transform 90 True False"
    by (simp add: inverse_def mk_Transform_def normalize_def)
  from compose_identity_inverse [THEN bspec, OF m] f i m show ?thesis
    by (simp add: normalize_unflipped)
qed

text \<open>
  C5: \<open>normalize\<close> is idempotent on every transform; two of the 16 transforms that act
  alike on the four sides have the same normal form, and the normal form acts on the sides
  as the transform does; the normal forms of the 16 transforms are exactly 8 values, none
  of which carries \<open>flip_y\<close>.
\<close>

theorem normalize_canonical:
  "(\<forall>t. normalize (normalize t) = normalize t)
   \<and> (\<forall>t \<in> set (get_all_transforms True). \<forall>u \<in> set (get_all_transforms True).
        (\<forall>s. apply_to_side t s = apply_to_side u s) \<longrightarrow> normalize t = normalize u)
   \<and> (\<forall>t \<in> set (get_all_transforms True). \<forall>s. apply_to_side (normalize t) s = apply_to_side t s)
   \<and> length (get_all_transforms True) = 16
   \<and> card (normalize ` set (get_all_transforms True)) = 8
   \<and> (\<forall>t \<in> set (get_all_transforms True). \<not> flip_y (normalize t))"
proof (intro conjI)
  show "\<forall>t. normalize (normalize t) = normalize t"
    by (simp add: normalize_unflipped flip_y_normalize)
  show "\<forall>t \<in> set (get_all_transforms True). \<forall>u \<in> set (get_all_transforms True).
        (\<forall>s. apply_to_side t s = apply_to_side u s) \<longrightarrow> normalize t = normalize u"
    using same_sides_same_normal_form by blast
  show "\<forall>t \<in> set (get_all_transforms True). \<forall>s. apply_to_side (normalize t) s = apply_to_side t s"
    using normalize_keeps_sides in_SIDES by blast
  show "length (get_all_transforms True) = 16"
    by code_simp
  show "card (normalize ` set (get_all_transforms True)) = 8"
    by code_simp
  show "\<forall>t \<in> set (get_all_transforms True). \<not> flip_y (normalize t)"
    by (simp add: flip_y_normalize)
qed

theorem normalize_canonical_witness:
  "mk_Transform 0 False True \<in> set (get_all_transforms True)
   \<and> mk_Transform 180 True False \<in> set (get_all_transforms True)
   \<and> (\<forall>s. apply_to_side (mk_Transform 0 False True) s = apply_to_side (mk_Transform 180 True False) s)
   \<and> normalize (mk_Transform 0 False True) = mk_Transform 180 True False
   \<and> normalize (mk_Transform 180 True False) = mk_Transform 180 True False"
proof -
  have m1: "mk_Transform 0 False True \<in> set (get_all_transforms True)"
    by code_simp
  have m2: "mk_Transform 180 True False \<in> set (get_all_transforms True)"
    by code_simp
  have "\<forall>s \<in> set SIDES. apply_to_side (mk_Transform 0 False True) s = apply_to_side (mk_Transform 180 True False) s"
    by code_simp
  then have a: "\<forall>s. apply_to_side (mk_Transform 0 False True) s = apply_to_side (mk_Transform 180 True False) s"
    using in_SIDES by blast
  have n: "normalize (mk_Transform 180 True False) = mk_Transform 180 True False"
    by (simp add: normalize_def mk_Transform_def)
  from normalize_canonical have
    "\<forall>t \<in> set (get_all_transforms True). \<forall>u \<in> set (get_all_transforms True).
        (\<forall>s. apply_to_side t s = apply_to_side u s) \<longrightarrow> normalize t = normalize u"
    by blast
  with m1 m2 a have "normalize (mk_Transform 0 False True) = normalize (mk_Transform 180 True False)"
    by blast
  with m1 m2 a n show ?thesis
    by simp
qed


section \<open>Properties of rule propagation\<close>

lemma propagate_rule_loop_tiles:
  "tiles (fst (propagate_rule_loop a rule st tt tvs svs acc)) = tiles a"
proof (induction svs arbitrary: a acc)
  case Nil
  show ?case by simp
next
  case (Cons sv svs)
  show ?case
    by (simp add: Cons.IH Let_def add_rule_def split: sum.split option.split prod.split)
qed

lemma propagate_rule_tiles: "tiles (fst (propagate_rule a rule)) = tiles a"
  by (simp add: propagate_rule_def propagate_rule_loop_tiles split: option.split)

text \<open>
  C1 fails on the code. In \<open>atlas_two_manual\<close> the rule derived from the first manual rule
  has the key of the second manual rule, and the other way round; \<open>add_rule\<close> writes the
  derived weight and \<open>auto_generated = True\<close> into the manual rule. One run of
  \<open>propagate_all_rules\<close> reports 2 new rules, creates none, and leaves both manual rules
  marked as auto-generated (the second with its weight changed from 50 to 100); a second
  run then deletes both and leaves an empty rule list.
\<close>

theorem propagate_all_rules_not_idempotent:
  "rules atlas_two_manual =
     [mk_AdjacencyRule ''A'' Right ''A'' 100 False,
      mk_AdjacencyRule ''A_r90'' Bottom ''A_r90'' 50 False]
   \<and> propagate_all_rules atlas_two_manual =
     (atlas_two_manual\<lparr>rules := [mk_AdjacencyRule ''A'' Right ''A'' 100 True,
                                   mk_AdjacencyRule ''A_r90'' Bottom ''A_r90'' 100 True],
                        modified := True\<rparr>, Inr 2)
   \<and> rules (fst (propagate_all_rules (fst (propagate_all_rules atlas_two_manual)))) = []"
  by code_simp

text \<open>
  C2 fails on the code. \<open>propagate_rule\<close> normalizes the computed target transform (through
  \<open>compose\<close>) but compares it with the fields of each sibling of \<open>B\<close> as they are stored.
  In \<open>atlas_fy\<close> the sibling \<open>B_fy\<close> exists and is stored as \<open>(0, False, True)\<close>; its normal
  form \<open>(180, True, False)\<close> is the computed target transform for the source sibling \<open>A_fy\<close>,
  so after normalization it is the sibling the claim names; the loop finds no target, and
  the call derives no rule and leaves the atlas as it was.
\<close>

theorem propagate_rule_misses_flip_y_sibling:
  "get_tile atlas_fy ''A_fy'' = Some (mk_Tile ''A_fy'' ''A'' 0 False True)
   \<and> get_tile atlas_fy ''B_fy'' = Some (mk_Tile ''B_fy'' ''B'' 0 False True)
   \<and> compose (tile_transform (mk_Tile ''B'' ''B'' 0 False False))
         (compose (inverse (tile_transform (mk_Tile ''A'' ''A'' 0 False False)))
                  (tile_transform (mk_Tile ''A_fy'' ''A'' 0 False True)))
       = mk_Transform 180 True False
   \<and> normalize (tile_transform (mk_Tile ''B_fy'' ''B'' 0 False True)) = mk_Transform 180 True False
   \<and> find_target_variant (get_tiles_for_base atlas_fy ''B'') (mk_Transform 180 True False) = None
   \<and> propagate_rule atlas_fy (mk_AdjacencyRule ''A'' Right ''B'' 100 False) = (atlas_fy, Inr [])"
  by code_simp

section \<open>The propagation loop terminates\<close>

text \<open>
  Every pass of the loop either collapses a cell, or makes a stale possibility set equal
  to the recomputed one without collapsing anything, or only shortens the queue.
\<close>

lemma filter_update_less:
  "map_of al k = Some v \<Longrightarrow> Q (k, v) \<Longrightarrow> \<not> Q (k, v') \<Longrightarrow>
   length (filter Q (AList.update k v' al)) < length (filter Q al)"
proof (induction al)
  case Nil
  then show ?case by simp
next
  case (Cons e al)
  obtain k0 v0 where e: "e = (k0, v0)" by (cases e)
  show ?case
  proof (cases "k0 = k")
    case True
    with Cons.prems e show ?thesis by simp
  next
    case False
    with Cons e show ?thesis by simp
  qed
qed

lemma filter_update_same:
  "map_of al k = Some v \<Longrightarrow> Q (k, v) = Q (k, v') \<Longrightarrow>
   length (filter Q (AList.update k v' al)) = length (filter Q al)"
proof (induction al)
  case Nil
  then show ?case by simp
next
  case (Cons e al)
  obtain k0 v0 where e: "e = (k0, v0)" by (cases e)
  show ?case
  proof (cases "k0 = k")
    case True
    with Cons.prems e show ?thesis by simp
  next
    case False
    with Cons e show ?thesis by simp
  qed
qed

lemma constrain_cong:
  "\<forall>p. map_option collapsed_tile (map_of cs p) = map_option collapsed_tile (map_of cs' p) \<Longrightarrow>
   constrain a cs l v = constrain a cs' l v"
proof (induction l arbitrary: v)
  case Nil
  show ?case by simp
next
  case (Cons e l)
  obtain nx ny sd where e: "e = (nx, ny, sd)" by (cases e)
  from Cons.prems
  have "map_option collapsed_tile (map_of cs (nx, ny))
        = map_option collapsed_tile (map_of cs' (nx, ny))"
    by blast
  then show ?case
    using Cons.IH [OF Cons.prems] e
    by (cases "map_of cs (nx, ny)"; cases "map_of cs' (nx, ny)")
       (auto simp: Let_def split: option.splits)
qed

lemma valid_tiles_update:
  assumes "map_of (cells s) k = Some c" "collapsed_tile c' = collapsed_tile c"
    and "cells s' = AList.update k c' (cells s)" "width s' = width s" "height s' = height s"
  shows "valid_tiles a s' x y = valid_tiles a s x y"
proof -
  have "\<forall>p. map_option collapsed_tile (map_of (cells s') p)
            = map_option collapsed_tile (map_of (cells s) p)"
    using assms by (simp add: update_conv')
  then have "constrain a (cells s') l v = constrain a (cells s) l v" for l v
    by (rule constrain_cong)
  then show ?thesis
    using assms by (simp add: valid_tiles_def priv_get_neighbors_with_sides_def)
qed

termination priv_propagate_loop
proof (relation "inv_image (less_than <*lex*> less_than <*lex*> less_than)
                   (\<lambda>(s, q). (uncollapsed_count s, stale_count s, length q))", goal_cases)
  case 1
  show ?case by (intro wf_inv_image wf_lex_prod wf_less_than)
next
  case (2 s x y queue)
  show ?case by simp
next
  case (3 s x y queue cell)
  show ?case by simp
next
  case (4 s x y queue cell a)
  let ?c' = "cell\<lparr>possibilities := valid_tiles a s x y,
                  collapsed_tile := Some (the_elem (valid_tiles a s x y))\<rparr>"
  have "length (filter (\<lambda>(p, c). \<not> is_collapsed c) (AList.update (x, y) ?c' (cells s)))
        < length (filter (\<lambda>(p, c). \<not> is_collapsed c) (cells s))"
    using 4 by (intro filter_update_less [where v = cell]) (simp_all add: is_collapsed_def)
  then show ?case by (simp add: uncollapsed_count_def)
next
  case (5 s x y queue cell a)
  let ?c' = "cell\<lparr>possibilities := valid_tiles a s x y\<rparr>"
  let ?s' = "s\<lparr>cells := AList.update (x, y) ?c' (cells s),
               emitted := emitted s @ [cell_updated x y]\<rparr>"
  have v: "valid_tiles a ?s' x' y' = valid_tiles a s x' y'" for x' y'
    using 5 by (intro valid_tiles_update [where k = "(x, y)" and c = cell and c' = ?c']) simp_all
  have e1: "uncollapsed_count ?s' = uncollapsed_count s"
    unfolding uncollapsed_count_def using 5
    by (simp add: filter_update_same [where v = cell] is_collapsed_def)
  have "length (filter (\<lambda>((x', y'), c). \<not> is_collapsed c \<and> possibilities c \<noteq> valid_tiles a s x' y')
                  (AList.update (x, y) ?c' (cells s)))
        < length (filter (\<lambda>((x', y'), c). \<not> is_collapsed c \<and> possibilities c \<noteq> valid_tiles a s x' y')
                    (cells s))"
    using 5 by (intro filter_update_less [where v = cell]) (simp_all add: is_collapsed_def)
  then have "stale_count ?s' < stale_count s"
    using 5 by (simp add: stale_count_def v)
  with e1 show ?case by simp
next
  case (6 s x y queue cell a)
  show ?case by simp
qed


declare priv_propagate_loop.simps [simp del]

section \<open>Properties of the lookup tables\<close>

lemma build_adjacency_loop_keys:
  "build_adjacency_loop rs adj radj = (adj', radj') \<Longrightarrow>
   set (map fst (case map_of adj' t of None \<Rightarrow> [] | Some m \<Rightarrow> m sd))
     = set (map fst (case map_of adj t of None \<Rightarrow> [] | Some m \<Rightarrow> m sd))
       \<union> {r_neighbor r | r. r \<in> set rs \<and> r_tile r = t \<and> r_side r = sd}"
proof (induction rs arbitrary: adj radj)
  case Nil
  then show ?case by simp
next
  case (Cons rule rs)
  let ?by_side = "case map_of adj (r_tile rule) of None \<Rightarrow> (\<lambda>sd. []) | Some m \<Rightarrow> m"
  let ?adj1 = "AList.update (r_tile rule)
                   (?by_side(r_side rule :=
                      AList.update (r_neighbor rule) (r_weight rule) (?by_side (r_side rule)))) adj"
  obtain radj1 where "build_adjacency_loop rs ?adj1 radj1 = (adj', radj')"
    using Cons.prems by (simp add: Let_def)
  from Cons.IH [OF this]
  have "set (map fst (case map_of adj' t of None \<Rightarrow> [] | Some m \<Rightarrow> m sd))
     = set (map fst (case map_of ?adj1 t of None \<Rightarrow> [] | Some m \<Rightarrow> m sd))
       \<union> {r_neighbor r | r. r \<in> set rs \<and> r_tile r = t \<and> r_side r = sd}" .
  moreover have "set (map fst (case map_of ?adj1 t of None \<Rightarrow> [] | Some m \<Rightarrow> m sd))
     = set (map fst (case map_of adj t of None \<Rightarrow> [] | Some m \<Rightarrow> m sd))
       \<union> (if r_tile rule = t \<and> r_side rule = sd then {r_neighbor rule} else {})"
    by (auto simp: update_conv' dom_update split: option.splits)
  ultimately show ?case by auto
qed

lemma build_adjacency_loop_allowing:
  "build_adjacency_loop rs adj radj = (adj', radj') \<Longrightarrow>
   (case map_of (radj' sd) n of None \<Rightarrow> {} | Some ts \<Rightarrow> ts)
     = (case map_of (radj sd) n of None \<Rightarrow> {} | Some ts \<Rightarrow> ts)
       \<union> {r_tile r | r. r \<in> set rs \<and> r_side r = sd \<and> r_neighbor r = n}"
proof (induction rs arbitrary: adj radj)
  case Nil
  then show ?case by simp
next
  case (Cons rule rs)
  let ?allowing = "case map_of (radj (r_side rule)) (r_neighbor rule) of
                     None \<Rightarrow> {} | Some ts \<Rightarrow> ts"
  let ?radj1 = "radj(r_side rule :=
                    AList.update (r_neighbor rule) (insert (r_tile rule) ?allowing)
                      (radj (r_side rule)))"
  obtain adj1 where "build_adjacency_loop rs adj1 ?radj1 = (adj', radj')"
    using Cons.prems by (simp add: Let_def)
  from Cons.IH [OF this]
  have "(case map_of (radj' sd) n of None \<Rightarrow> {} | Some ts \<Rightarrow> ts)
     = (case map_of (?radj1 sd) n of None \<Rightarrow> {} | Some ts \<Rightarrow> ts)
       \<union> {r_tile r | r. r \<in> set rs \<and> r_side r = sd \<and> r_neighbor r = n}" .
  moreover have "(case map_of (?radj1 sd) n of None \<Rightarrow> {} | Some ts \<Rightarrow> ts)
     = (case map_of (radj sd) n of None \<Rightarrow> {} | Some ts \<Rightarrow> ts)
       \<union> (if r_side rule = sd \<and> r_neighbor rule = n then {r_tile rule} else {})"
    by (auto simp: update_conv' split: option.splits)
  ultimately show ?case by auto
qed

lemma get_valid_neighbors_built:
  "n \<in> set (map fst (get_valid_neighbors (build_adjacency_lookup a) t sd)) \<longleftrightarrow> has_rule a t sd n"
proof -
  obtain adj radj where b: "build_adjacency_loop (ta_rules a) [] (\<lambda>sd. []) = (adj, radj)"
    by (cases "build_adjacency_loop (ta_rules a) [] (\<lambda>sd. [])")
  from build_adjacency_loop_keys [OF b, where t = t and sd = sd] b show ?thesis
    by (auto simp: get_valid_neighbors_def build_adjacency_lookup_def has_rule_def)
qed

lemma get_tiles_allowing_neighbor_built:
  "t \<in> get_tiles_allowing_neighbor (build_adjacency_lookup a) sd n \<longleftrightarrow> has_rule a t sd n"
proof -
  obtain adj radj where b: "build_adjacency_loop (ta_rules a) [] (\<lambda>sd. []) = (adj, radj)"
    by (cases "build_adjacency_loop (ta_rules a) [] (\<lambda>sd. [])")
  from build_adjacency_loop_allowing [OF b, where sd = sd and n = n] b show ?thesis
    by (auto simp: get_tiles_allowing_neighbor_def build_adjacency_lookup_def has_rule_def)
qed

lemma ta_rules_built: "ta_rules (build_adjacency_lookup a) = ta_rules a"
  by (simp add: build_adjacency_lookup_def split: prod.split)

lemma has_rule_built: "has_rule (build_adjacency_lookup a) t sd n \<longleftrightarrow> has_rule a t sd n"
  by (simp add: has_rule_def ta_rules_built)

lemma enabled_built: "get_enabled_tile_ids (build_adjacency_lookup a) = get_enabled_tile_ids a"
  by (simp add: build_adjacency_lookup_def get_enabled_tile_ids_def split: prod.split)

section \<open>Properties of the propagation loop\<close>

text \<open>
  A relation that holds across each write of the loop, and is reflexive and transitive,
  holds between the state before the loop and the state it returns.
\<close>

lemma priv_propagate_loop_rel:
  assumes run: "priv_propagate_loop s q = Inr s'"
    and refl: "\<And>s. R s s"
    and trans: "\<And>s t u. R s t \<Longrightarrow> R t u \<Longrightarrow> R s u"
    and upd: "\<And>s x y cell a.
       \<lbrakk>map_of (cells s) (x, y) = Some cell; \<not> is_collapsed cell; atlas s = Some a;
        valid_tiles a s x y \<noteq> possibilities cell; card (valid_tiles a s x y) \<noteq> 1\<rbrakk>
       \<Longrightarrow> R s (s\<lparr>cells := AList.update (x, y)
                             (cell\<lparr>possibilities := valid_tiles a s x y\<rparr>) (cells s),
                  emitted := emitted s @ [cell_updated x y]\<rparr>)"
    and col: "\<And>s x y cell a.
       \<lbrakk>map_of (cells s) (x, y) = Some cell; \<not> is_collapsed cell; atlas s = Some a;
        valid_tiles a s x y \<noteq> possibilities cell; card (valid_tiles a s x y) = 1\<rbrakk>
       \<Longrightarrow> R s (s\<lparr>cells := AList.update (x, y)
                             (cell\<lparr>possibilities := valid_tiles a s x y,
                                   collapsed_tile := Some (the_elem (valid_tiles a s x y))\<rparr>)
                             (cells s),
                  collapsed_count := collapsed_count s + 1,
                  emitted := emitted s @
                    [cell_updated x y,
                     cell_collapsed x y (the_elem (valid_tiles a s x y)),
                     progress_updated (collapsed_count s + 1) (total_cells s)]\<rparr>)"
  shows "R s s'"
  using run
proof (induction s q arbitrary: s' rule: priv_propagate_loop.induct)
  case (1 s)
  then show ?case by (simp add: refl priv_propagate_loop.simps)
next
  case (2 s x y queue)
  note run = "2.prems" [unfolded priv_propagate_loop.simps(2) [of s x y queue]]
  show ?case
  proof (cases "map_of (cells s) (x, y)")
    case None
    with run have "priv_propagate_loop s queue = Inr s'" by simp
    from "2.IH"(1) [OF None this] show ?thesis .
  next
    case (Some cell)
    show ?thesis
    proof (cases "is_collapsed cell")
      case True
      with Some run have "priv_propagate_loop s queue = Inr s'" by simp
      from "2.IH"(2) [OF Some True this] show ?thesis .
    next
      case False
      show ?thesis
      proof (cases "atlas s")
        case None
        with Some False run show ?thesis by simp
      next
        case a: (Some a)
        show ?thesis
        proof (cases "valid_tiles a s x y \<noteq> possibilities cell")
          case same: False
          with Some False a run have "priv_propagate_loop s queue = Inr s'" by simp
          from "2.IH"(5) [OF Some False a same this] show ?thesis .
        next
          case diff: True
          show ?thesis
          proof (cases "card (valid_tiles a s x y) = 0")
            case True
            with Some False a diff run
            have "s' = s\<lparr>cells := AList.update (x, y)
                             (cell\<lparr>possibilities := valid_tiles a s x y\<rparr>) (cells s),
                  emitted := emitted s @ [cell_updated x y]\<rparr>"
              by simp
            with upd [OF Some False a diff] True show ?thesis by simp
          next
            case nz: False
            show ?thesis
            proof (cases "card (valid_tiles a s x y) = 1")
              case True
              from Some False a diff nz True run
              have r: "priv_propagate_loop
                        (s\<lparr>cells := AList.update (x, y)
                                      (cell\<lparr>possibilities := valid_tiles a s x y,
                                            collapsed_tile := Some (the_elem (valid_tiles a s x y))\<rparr>)
                                      (cells s),
                           collapsed_count := collapsed_count s + 1,
                           emitted := emitted s @
                             [cell_updated x y,
                              cell_collapsed x y (the_elem (valid_tiles a s x y)),
                              progress_updated (collapsed_count s + 1) (total_cells s)]\<rparr>)
                        (queue @ uncollapsed_neighbors
                           (s\<lparr>cells := AList.update (x, y)
                                      (cell\<lparr>possibilities := valid_tiles a s x y,
                                            collapsed_tile := Some (the_elem (valid_tiles a s x y))\<rparr>)
                                      (cells s)\<rparr>) x y) = Inr s'"
                by simp
              from trans [OF col [OF Some False a diff True] "2.IH"(3) [OF Some False a diff nz True r]]
              show ?thesis .
            next
              case no: False
              from Some False a diff nz no run
              have r: "priv_propagate_loop
                        (s\<lparr>cells := AList.update (x, y)
                                      (cell\<lparr>possibilities := valid_tiles a s x y\<rparr>) (cells s),
                           emitted := emitted s @ [cell_updated x y]\<rparr>)
                        (queue @ uncollapsed_neighbors
                           (s\<lparr>cells := AList.update (x, y)
                                      (cell\<lparr>possibilities := valid_tiles a s x y\<rparr>) (cells s)\<rparr>) x y)
                       = Inr s'"
                by simp
              from trans [OF upd [OF Some False a diff no] "2.IH"(4) [OF Some False a diff nz no r]]
              show ?thesis .
            qed
          qed
        qed
      qed
    qed
  qed
qed

lemma priv_propagate_loop_returns:
  "atlas s \<noteq> None \<Longrightarrow> \<exists>s'. priv_propagate_loop s q = Inr s'"
proof (induction s q rule: priv_propagate_loop.induct)
  case (1 s)
  show ?case by (simp add: priv_propagate_loop.simps)
next
  case (2 s x y queue)
  from "2.prems" obtain a where a: "atlas s = Some a" by auto
  show ?case
  proof (cases "map_of (cells s) (x, y)")
    case None
    with "2.IH"(1) "2.prems" show ?thesis
      by (simp add: priv_propagate_loop.simps(2) [of s x y queue])
  next
    case (Some cell)
    show ?thesis
    proof (cases "is_collapsed cell")
      case True
      with Some "2.IH"(2) "2.prems" show ?thesis
        by (simp add: priv_propagate_loop.simps(2) [of s x y queue])
    next
      case False
      show ?thesis
      proof (cases "valid_tiles a s x y \<noteq> possibilities cell")
        case same: False
        with Some False a "2.IH"(5) [OF Some False a same] "2.prems" show ?thesis
          by (simp add: priv_propagate_loop.simps(2) [of s x y queue])
      next
        case diff: True
        show ?thesis
        proof (cases "card (valid_tiles a s x y) = 0")
          case True
          with Some False a diff show ?thesis
            by (simp add: priv_propagate_loop.simps(2) [of s x y queue])
        next
          case nz: False
          show ?thesis
          proof (cases "card (valid_tiles a s x y) = 1")
            case True
            with Some False a diff nz "2.IH"(3) [OF Some False a diff nz True] a show ?thesis
              by (simp add: priv_propagate_loop.simps(2) [of s x y queue])
          next
            case no: False
            with Some False a diff nz "2.IH"(4) [OF Some False a diff nz no] a show ?thesis
              by (simp add: priv_propagate_loop.simps(2) [of s x y queue])
          qed
        qed
      qed
    qed
  qed
qed

lemma set_update_subset: "set (AList.update k v al) \<subseteq> insert (k, v) (set al)"
  by (induction al) auto

lemma map_fst_update: "map_of al k = Some v \<Longrightarrow> map fst (AList.update k v' al) = map fst al"
  by (induction al) (auto split: if_splits)

lemma cell_inv_update:
  "cell_inv s \<Longrightarrow> cell_ok c \<Longrightarrow> cells s' = AList.update k c (cells s) \<Longrightarrow> cell_inv s'"
  using set_update_subset [of k c "cells s"] by (auto simp: cell_inv_def)

lemma cell_inv_lookup: "cell_inv s \<Longrightarrow> map_of (cells s) k = Some c \<Longrightarrow> cell_ok c"
  by (auto simp: cell_inv_def dest: map_of_SomeD)

lemma priv_propagate_loop_cell_inv:
  assumes "priv_propagate_loop s q = Inr s'" "cell_inv s"
  shows "cell_inv s'"
proof -
  have "cell_inv s \<longrightarrow> cell_inv s'"
  proof (rule priv_propagate_loop_rel [OF assms(1), where R = "\<lambda>s s'. cell_inv s \<longrightarrow> cell_inv s'"], goal_cases)
    case (1 s)
    show ?case by simp
  next
    case (2 s t u)
    then show ?case by simp
  next
    case (3 s x y cell a)
    show ?case
    proof
      assume inv: "cell_inv s"
      from cell_inv_lookup [OF inv 3(1)] 3(2)
      have "cell_ok (cell\<lparr>possibilities := valid_tiles a s x y\<rparr>)"
        by (simp add: cell_ok_def is_collapsed_def)
      from cell_inv_update [OF inv this] show "cell_inv (s\<lparr>cells := AList.update (x, y)
                             (cell\<lparr>possibilities := valid_tiles a s x y\<rparr>) (cells s),
                  emitted := emitted s @ [cell_updated x y]\<rparr>)"
        by simp
    qed
  next
    case (4 s x y cell a)
    show ?case
    proof
      assume inv: "cell_inv s"
      from 4(5) have "valid_tiles a s x y = {the_elem (valid_tiles a s x y)}"
        by (metis card_1_singletonE the_elem_eq)
      with cell_inv_lookup [OF inv 4(1)] 4(2)
      have "cell_ok (cell\<lparr>possibilities := valid_tiles a s x y,
                                   collapsed_tile := Some (the_elem (valid_tiles a s x y))\<rparr>)"
        by (simp add: cell_ok_def is_collapsed_def)
      from cell_inv_update [OF inv this] show "cell_inv (s\<lparr>cells := AList.update (x, y)
                             (cell\<lparr>possibilities := valid_tiles a s x y,
                                   collapsed_tile := Some (the_elem (valid_tiles a s x y))\<rparr>)
                             (cells s),
                  collapsed_count := collapsed_count s + 1,
                  emitted := emitted s @
                    [cell_updated x y,
                     cell_collapsed x y (the_elem (valid_tiles a s x y)),
                     progress_updated (collapsed_count s + 1) (total_cells s)]\<rparr>)"
        by simp
    qed
  qed
  with assms(2) show ?thesis by simp
qed

lemma priv_propagate_loop_frame:
  assumes "priv_propagate_loop s q = Inr s'"
  shows "frame s s'"
proof (rule priv_propagate_loop_rel [OF assms, where R = frame], goal_cases)
  case (1 s)
  show ?case by (simp add: frame_def)
next
  case (2 s t u)
  then show ?case by (auto simp: frame_def)
next
  case (3 s x y cell a)
  then show ?case
    by (auto simp: frame_def map_fst_update update_conv')
next
  case (4 s x y cell a)
  then show ?case
    by (auto simp: frame_def map_fst_update update_conv')
qed



section \<open>Properties of the valid set\<close>

lemma neighbors_with_sides_list:
  "priv_get_neighbors_with_sides s x y =
     filter (\<lambda>(nx, ny, sd). 0 \<le> nx \<and> nx < width s \<and> 0 \<le> ny \<and> ny < height s)
       [(x - 1, y, Left), (x + 1, y, Right), (x, y - 1, Top), (x, y + 1, Bottom)]"
  by (simp add: priv_get_neighbors_with_sides_def)

lemma neighbors_with_sides_iff:
  "(nx, ny, sd) \<in> set (priv_get_neighbors_with_sides s x y) \<longleftrightarrow>
     0 \<le> nx \<and> nx < width s \<and> 0 \<le> ny \<and> ny < height s
     \<and> (nx, ny) = (case sd of Left \<Rightarrow> (x - 1, y) | Right \<Rightarrow> (x + 1, y)
                    | Top \<Rightarrow> (x, y - 1) | Bottom \<Rightarrow> (x, y + 1))"
  unfolding neighbors_with_sides_list set_filter
  by (cases sd) auto

lemma constrain_iff:
  "t \<in> constrain a cs l v \<longleftrightarrow>
     t \<in> v \<and> (\<forall>nx ny sd nb n. (nx, ny, sd) \<in> set l \<longrightarrow> map_of cs (nx, ny) = Some nb \<longrightarrow>
                 collapsed_tile nb = Some n \<longrightarrow>
                 t \<in> set (map fst (get_valid_neighbors a n (get_opposite_side sd)))
                 \<and> t \<in> get_tiles_allowing_neighbor a sd n)"
proof (induction l arbitrary: v)
  case Nil
  show ?case by simp
next
  case (Cons e l)
  obtain nx ny sd where e: "e = (nx, ny, sd)" by (cases e)
  show ?case
  proof (cases "map_of cs (nx, ny)")
    case None
    with e Cons.IH [of v] show ?thesis by auto
  next
    case (Some nb)
    show ?thesis
    proof (cases "collapsed_tile nb")
      case None
      with e Some Cons.IH [of v] show ?thesis by auto
    next
      case n: (Some n)
      let ?A = "set (map fst (get_valid_neighbors a n (get_opposite_side sd)))"
      let ?B = "get_tiles_allowing_neighbor a sd n"
      let ?Q = "\<lambda>l. \<forall>nx ny sd nb n. (nx, ny, sd) \<in> set l \<longrightarrow> map_of cs (nx, ny) = Some nb \<longrightarrow>
                 collapsed_tile nb = Some n \<longrightarrow>
                 t \<in> set (map fst (get_valid_neighbors a n (get_opposite_side sd)))
                 \<and> t \<in> get_tiles_allowing_neighbor a sd n"
      have "t \<in> constrain a cs (e # l) v \<longleftrightarrow> t \<in> constrain a cs l ((v \<inter> ?A) \<inter> ?B)"
        using e Some n by (simp add: Let_def)
      also have "\<dots> \<longleftrightarrow> t \<in> (v \<inter> ?A) \<inter> ?B \<and> ?Q l"
        by (rule Cons.IH)
      also have "\<dots> \<longleftrightarrow> t \<in> v \<and> ?Q (e # l)"
      proof
        assume h: "t \<in> (v \<inter> ?A) \<inter> ?B \<and> ?Q l"
        have "?Q (e # l)"
        proof (intro allI impI)
          fix nx' ny' sd' nb' n'
          assume m: "(nx', ny', sd') \<in> set (e # l)" and c: "map_of cs (nx', ny') = Some nb'"
            and t: "collapsed_tile nb' = Some n'"
          show "t \<in> set (map fst (get_valid_neighbors a n' (get_opposite_side sd')))
                 \<and> t \<in> get_tiles_allowing_neighbor a sd' n'"
          proof (cases "(nx', ny', sd') = e")
            case True
            with e Some n c t h show ?thesis by simp
          next
            case False
            with m have "(nx', ny', sd') \<in> set l" by simp
            with h c t show ?thesis by blast
          qed
        qed
        with h show "t \<in> v \<and> ?Q (e # l)" by simp
      next
        assume h: "t \<in> v \<and> ?Q (e # l)"
        then have "?Q l" by simp
        moreover from h e Some n have "t \<in> ?A \<and> t \<in> ?B"
          by (metis list.set_intros(1))
        ultimately show "t \<in> (v \<inter> ?A) \<inter> ?B \<and> ?Q l" using h by simp
      qed
      finally show ?thesis .
    qed
  qed
qed

lemma valid_tiles_built:
  "t \<in> valid_tiles (build_adjacency_lookup a) s x y \<longleftrightarrow>
     t \<in> get_enabled_tile_ids a \<and> admissible a s x y t"
  unfolding valid_tiles_def constrain_iff admissible_def
    get_valid_neighbors_built get_tiles_allowing_neighbor_built enabled_built
  by blast

lemma admissible_frame:
  assumes "frame s s'" "admissible a s' x y t"
  shows "admissible a s x y t"
proof -
  from assms(1) have n: "priv_get_neighbors_with_sides s' x y = priv_get_neighbors_with_sides s x y"
    by (simp add: frame_def priv_get_neighbors_with_sides_def)
  from assms(1) have k: "\<And>p n. map_of (cells s) p = Some n \<Longrightarrow> collapsed_tile n \<noteq> None \<Longrightarrow> map_of (cells s') p = Some n"
    unfolding frame_def is_collapsed_def by blast
  show ?thesis
    unfolding admissible_def
  proof (intro allI impI)
    fix nx ny sd nb n
    assume "(nx, ny, sd) \<in> set (priv_get_neighbors_with_sides s x y)"
      and "map_of (cells s) (nx, ny) = Some nb" and "collapsed_tile nb = Some n"
    with n k [of "(nx, ny)" nb] assms(2)
    show "has_rule a t sd n \<and> has_rule a n (get_opposite_side sd) t"
      unfolding admissible_def by auto
  qed
qed

lemma frame_trans: "frame s t \<Longrightarrow> frame t u \<Longrightarrow> frame s u"
  by (auto simp: frame_def)

lemma priv_propagate_loop_written:
  assumes run: "priv_propagate_loop s q = Inr s'" and a: "atlas s = Some (build_adjacency_lookup a)"
  shows "written_admissible a s s'"
proof -
  let ?A = "build_adjacency_lookup a"
  let ?R = "\<lambda>s s'. atlas s = Some ?A \<longrightarrow> frame s s' \<and> written_admissible a s s'"
  have "?R s s'"
  proof (rule priv_propagate_loop_rel [OF run, where R = ?R], goal_cases)
    case (1 s)
    show ?case by (simp add: frame_def written_admissible_def)
  next
    case (2 s t u)
    show ?case
    proof
      assume s: "atlas s = Some ?A"
      with 2 have st: "frame s t" "written_admissible a s t" by simp_all
      from st(1) s have "atlas t = Some ?A" by (simp add: frame_def)
      with 2 have tu: "frame t u" "written_admissible a t u" by simp_all
      have "written_admissible a s u"
        unfolding written_admissible_def
      proof (intro allI impI)
        fix x y c t'
        assume u: "((x, y), c) \<in> set (cells u)" and ns: "((x, y), c) \<notin> set (cells s)"
          and t': "t' \<in> possibilities c"
        show "admissible a s x y t'"
        proof (cases "((x, y), c) \<in> set (cells t)")
          case True
          with st(2) ns t' show ?thesis by (auto simp: written_admissible_def)
        next
          case False
          with tu(2) u t' have "admissible a t x y t'" by (auto simp: written_admissible_def)
          from admissible_frame [OF st(1) this] show ?thesis .
        qed
      qed
      with frame_trans [OF st(1) tu(1)] show "frame s u \<and> written_admissible a s u" by simp
    qed
  next
    case (3 s x y cell a')
    show ?case
    proof
      assume s: "atlas s = Some ?A"
      with 3 have a': "a' = ?A" by simp
      let ?s' = "s\<lparr>cells := AList.update (x, y) (cell\<lparr>possibilities := valid_tiles a' s x y\<rparr>) (cells s),
                   emitted := emitted s @ [cell_updated x y]\<rparr>"
      have f: "frame s ?s'"
        using 3 by (auto simp: frame_def map_fst_update update_conv')
      have "written_admissible a s ?s'"
        unfolding written_admissible_def
        using set_update_subset [of "(x, y)" "cell\<lparr>possibilities := valid_tiles a' s x y\<rparr>" "cells s"]
        by (auto simp: a' valid_tiles_built)
      with f show "frame s ?s' \<and> written_admissible a s ?s'" by simp
    qed
  next
    case (4 s x y cell a')
    show ?case
    proof
      assume s: "atlas s = Some ?A"
      with 4 have a': "a' = ?A" by simp
      let ?c = "cell\<lparr>possibilities := valid_tiles a' s x y,
                                   collapsed_tile := Some (the_elem (valid_tiles a' s x y))\<rparr>"
      let ?s' = "s\<lparr>cells := AList.update (x, y) ?c (cells s),
                  collapsed_count := collapsed_count s + 1,
                  emitted := emitted s @
                    [cell_updated x y,
                     cell_collapsed x y (the_elem (valid_tiles a' s x y)),
                     progress_updated (collapsed_count s + 1) (total_cells s)]\<rparr>"
      have f: "frame s ?s'"
        using 4 by (auto simp: frame_def map_fst_update update_conv')
      have "written_admissible a s ?s'"
        unfolding written_admissible_def
        using set_update_subset [of "(x, y)" ?c "cells s"]
        by (auto simp: a' valid_tiles_built)
      with f show "frame s ?s' \<and> written_admissible a s ?s'" by simp
    qed
  qed
  with a show ?thesis by simp
qed


section \<open>Properties of grid validation\<close>

lemma cell_violations_set:
  "set (cell_violations a s x y) =
     {violation_message x y t n sd | t n sd.
        (\<exists>nx ny c nb. (nx, ny, sd) \<in> set (priv_get_neighbors_with_sides s x y)
           \<and> map_of (cells s) (x, y) = Some c \<and> collapsed_tile c = Some t
           \<and> map_of (cells s) (nx, ny) = Some nb \<and> collapsed_tile nb = Some n)
        \<and> n \<notin> set (map fst (get_valid_neighbors a t sd))}"
proof (cases "map_of (cells s) (x, y)")
  case None
  then show ?thesis by (simp add: cell_violations_def get_cell_def)
next
  case (Some c)
  show ?thesis
  proof (cases "collapsed_tile c")
    case None
    with Some show ?thesis by (simp add: cell_violations_def get_cell_def)
  next
    case t: (Some t)
    define f where "f = (\<lambda>(nx, ny, sd). (case get_cell s nx ny of
                     None \<Rightarrow> []
                   | Some neighbor \<Rightarrow>
                       (case collapsed_tile neighbor of
                          None \<Rightarrow> []
                        | Some neighbor_tile \<Rightarrow>
                            if neighbor_tile \<notin> set (map fst (get_valid_neighbors a t sd))
                            then [violation_message x y t neighbor_tile sd]
                            else [])))"
    have f: "m \<in> set (f (nx, ny, sd)) \<longleftrightarrow>
             (\<exists>nb n. map_of (cells s) (nx, ny) = Some nb \<and> collapsed_tile nb = Some n
                \<and> n \<notin> set (map fst (get_valid_neighbors a t sd))
                \<and> m = violation_message x y t n sd)" for m nx ny sd
    proof (cases "map_of (cells s) (nx, ny)")
      case None
      then show ?thesis by (simp add: f_def get_cell_def)
    next
      case nb: (Some nb)
      then show ?thesis by (cases "collapsed_tile nb") (auto simp: f_def get_cell_def)
    qed
    have "cell_violations a s x y = concat (map f (priv_get_neighbors_with_sides s x y))"
      using Some t by (simp add: cell_violations_def get_cell_def f_def)
    then have "m \<in> set (cell_violations a s x y) \<longleftrightarrow>
          (\<exists>e \<in> set (priv_get_neighbors_with_sides s x y). m \<in> set (f e))" for m
      by simp
    then have "m \<in> set (cell_violations a s x y) \<longleftrightarrow>
          (\<exists>nx ny sd. (nx, ny, sd) \<in> set (priv_get_neighbors_with_sides s x y)
              \<and> m \<in> set (f (nx, ny, sd)))" for m
      by auto
    then have "m \<in> set (cell_violations a s x y) \<longleftrightarrow>
          (\<exists>nx ny sd nb n. (nx, ny, sd) \<in> set (priv_get_neighbors_with_sides s x y)
              \<and> map_of (cells s) (nx, ny) = Some nb \<and> collapsed_tile nb = Some n
              \<and> n \<notin> set (map fst (get_valid_neighbors a t sd))
              \<and> m = violation_message x y t n sd)" for m
      unfolding f by blast
    note char = this
    show ?thesis
    proof (intro set_eqI iffI)
      fix m
      assume "m \<in> set (cell_violations a s x y)"
      with char obtain nx ny sd nb n where
        "(nx, ny, sd) \<in> set (priv_get_neighbors_with_sides s x y)"
        "map_of (cells s) (nx, ny) = Some nb" "collapsed_tile nb = Some n"
        "n \<notin> set (map fst (get_valid_neighbors a t sd))"
        "m = violation_message x y t n sd"
        by blast
      with Some t show "m \<in> {violation_message x y t n sd | t n sd.
        (\<exists>nx ny c nb. (nx, ny, sd) \<in> set (priv_get_neighbors_with_sides s x y)
           \<and> map_of (cells s) (x, y) = Some c \<and> collapsed_tile c = Some t
           \<and> map_of (cells s) (nx, ny) = Some nb \<and> collapsed_tile nb = Some n)
        \<and> n \<notin> set (map fst (get_valid_neighbors a t sd))}"
        by blast
    next
      fix m
      assume "m \<in> {violation_message x y t n sd | t n sd.
        (\<exists>nx ny c nb. (nx, ny, sd) \<in> set (priv_get_neighbors_with_sides s x y)
           \<and> map_of (cells s) (x, y) = Some c \<and> collapsed_tile c = Some t
           \<and> map_of (cells s) (nx, ny) = Some nb \<and> collapsed_tile nb = Some n)
        \<and> n \<notin> set (map fst (get_valid_neighbors a t sd))}"
      then obtain t' n sd nx ny c' nb where m: "m = violation_message x y t' n sd"
        and h: "(nx, ny, sd) \<in> set (priv_get_neighbors_with_sides s x y)"
          "map_of (cells s) (x, y) = Some c'" "collapsed_tile c' = Some t'"
          "map_of (cells s) (nx, ny) = Some nb" "collapsed_tile nb = Some n"
          "n \<notin> set (map fst (get_valid_neighbors a t' sd))"
        by blast
      from h(2,3) Some t have "t' = t" by simp
      with m h char show "m \<in> set (cell_violations a s x y)" by blast
    qed
  qed
qed

lemma validate_grid_set:
  "atlas s = Some (build_adjacency_lookup a) \<Longrightarrow>
   set (validate_grid s) =
     {violation_message x y t n sd | x y t n sd.
        adjacent_collapsed s x y sd t n \<and> \<not> has_rule a t sd n}"
proof -
  assume a: "atlas s = Some (build_adjacency_lookup a)"
  have u: "set (validate_grid s) =
        (\<Union>y \<in> {0..height s - 1}. \<Union>x \<in> {0..width s - 1}.
           set (cell_violations (build_adjacency_lookup a) s x y))"
    using a by (simp add: validate_grid_def)
  have r: "i \<in> {0..k - 1} \<longleftrightarrow> 0 \<le> i \<and> i < k" for i k :: int
    by auto
  have "m \<in> set (validate_grid s) \<longleftrightarrow>
        (\<exists>y x. (0 \<le> x \<and> x < width s \<and> 0 \<le> y \<and> y < height s)
            \<and> m \<in> set (cell_violations (build_adjacency_lookup a) s x y))" for m
    unfolding u UN_iff Bex_def r by blast
  note char = this
  show ?thesis
  proof (intro set_eqI iffI)
    fix m
    assume "m \<in> set (validate_grid s)"
    with char obtain x y where b: "0 \<le> x \<and> x < width s \<and> 0 \<le> y \<and> y < height s"
      and "m \<in> set (cell_violations (build_adjacency_lookup a) s x y)"
      by blast
    then obtain t n sd where "m = violation_message x y t n sd"
      and "\<exists>nx ny c nb. (nx, ny, sd) \<in> set (priv_get_neighbors_with_sides s x y)
           \<and> map_of (cells s) (x, y) = Some c \<and> collapsed_tile c = Some t
           \<and> map_of (cells s) (nx, ny) = Some nb \<and> collapsed_tile nb = Some n"
      and "\<not> has_rule a t sd n"
      unfolding cell_violations_set get_valid_neighbors_built by blast
    with b show "m \<in> {violation_message x y t n sd | x y t n sd.
        adjacent_collapsed s x y sd t n \<and> \<not> has_rule a t sd n}"
      unfolding adjacent_collapsed_def by blast
  next
    fix m
    assume "m \<in> {violation_message x y t n sd | x y t n sd.
        adjacent_collapsed s x y sd t n \<and> \<not> has_rule a t sd n}"
    then obtain x y t n sd where m: "m = violation_message x y t n sd"
      and ac: "adjacent_collapsed s x y sd t n" and nr: "\<not> has_rule a t sd n"
      by blast
    from ac nr m have "m \<in> set (cell_violations (build_adjacency_lookup a) s x y)"
      unfolding cell_violations_set get_valid_neighbors_built adjacent_collapsed_def by blast
    moreover from ac have "0 \<le> x \<and> x < width s \<and> 0 \<le> y \<and> y < height s"
      by (simp add: adjacent_collapsed_def)
    ultimately show "m \<in> set (validate_grid s)"
      using char by blast
  qed
qed



section \<open>The solver's constraint computation and grid validation\<close>

lemma scan_cells_keys:
  "scan_cells cs m acc = Inr cands \<Longrightarrow> set cands \<subseteq> set acc \<union> fst ` set cs"
proof (induction cs arbitrary: m acc)
  case Nil
  then show ?case by simp
next
  case (Cons e cs)
  obtain pos cell where e: "e = (pos, cell)" by (cases e)
  from Cons.prems e show ?case
    by (auto split: if_splits dest!: Cons.IH)
qed

lemma priv_step_picks_valid:
  assumes "scan_cells (cells s) \<infinity> [] = Inr cands" "cands \<noteq> []" "atlas s = Some a"
    and "valid_tiles a s x y \<noteq> {}" "priv_step s (x, y) t = Some r"
  shows "t \<in> valid_tiles a s x y"
proof -
  from assms have m: "(x, y) \<in> set cands"
    by (auto simp: priv_step_def split: if_splits)
  with scan_cells_keys [OF assms(1)] have "(x, y) \<in> fst ` set (cells s)"
    by auto
  then obtain cell where "map_of (cells s) (x, y) = Some cell"
    by (metis map_of_eq_None_iff not_None_eq)
  with assms m show ?thesis
    by (auto simp: priv_step_def Let_def split: if_splits)
qed

lemma atlas_initialize: "atlas (initialize s a w h) = Some a"
  by (simp add: initialize_def Let_def set_state_def)

lemma adjacent_collapsedI:
  "0 \<le> x \<Longrightarrow> x < width s \<Longrightarrow> 0 \<le> y \<Longrightarrow> y < height s \<Longrightarrow>
   (nx, ny, sd) \<in> set (priv_get_neighbors_with_sides s x y) \<Longrightarrow>
   map_option collapsed_tile (map_of (cells s) (x, y)) = Some (Some t) \<Longrightarrow>
   map_option collapsed_tile (map_of (cells s) (nx, ny)) = Some (Some n) \<Longrightarrow>
   adjacent_collapsed s x y sd t n"
  unfolding adjacent_collapsed_def by auto

text \<open>
  C3: in the solver's constraint computation a tile \<open>t\<close> is in the valid set of a cell
  exactly when it is enabled and, for every collapsed neighbour \<open>n\<close> on side \<open>sd\<close> of the
  cell, both \<open>(t, sd, n)\<close> and \<open>(n, opposite(sd), t)\<close> are rules of the atlas (the lookup
  tables being those built from the rules). The per-step re-derivation of \<open>_step\<close> picks
  only such a tile, and every possibility set that \<open>_propagate\<close> writes holds only such
  tiles, with respect to the neighbours collapsed when it starts.
\<close>

theorem solver_requires_both_directed_rules:
  "(t \<in> valid_tiles (build_adjacency_lookup a) s x y \<longleftrightarrow>
      t \<in> get_enabled_tile_ids a \<and> admissible a s x y t)
   \<and> (atlas s = Some (build_adjacency_lookup a) \<longrightarrow>
        (\<forall>cands r. scan_cells (cells s) \<infinity> [] = Inr cands \<longrightarrow> cands \<noteq> [] \<longrightarrow>
           valid_tiles (build_adjacency_lookup a) s x y \<noteq> {} \<longrightarrow>
           priv_step s (x, y) t = Some r \<longrightarrow> admissible a s x y t)
        \<and> (\<forall>s'. priv_propagate s x y = Inr s' \<longrightarrow> written_admissible a s s'))"
proof (intro conjI impI allI)
  show "t \<in> valid_tiles (build_adjacency_lookup a) s x y \<longleftrightarrow>
      t \<in> get_enabled_tile_ids a \<and> admissible a s x y t"
    by (rule valid_tiles_built)
next
  fix cands r
  assume "atlas s = Some (build_adjacency_lookup a)" "scan_cells (cells s) \<infinity> [] = Inr cands"
    "cands \<noteq> []" "valid_tiles (build_adjacency_lookup a) s x y \<noteq> {}"
    "priv_step s (x, y) t = Some r"
  from priv_step_picks_valid [OF this(2,3,1,4,5)] show "admissible a s x y t"
    by (simp add: valid_tiles_built)
next
  fix s'
  assume "atlas s = Some (build_adjacency_lookup a)" "priv_propagate s x y = Inr s'"
  then show "written_admissible a s s'"
    by (simp add: priv_propagate_def priv_propagate_loop_written)
qed

theorem solver_requires_both_directed_rules_witness:
  "''X'' \<in> valid_tiles (load_TileAtlas [''X'', ''Y''] rules_S4) engine_pair_X 1 0
   \<and> admissible (raw_TileAtlas [''X'', ''Y''] rules_S4) engine_pair_X 1 0 ''X''
   \<and> ''Y'' \<in> get_enabled_tile_ids (raw_TileAtlas [''X'', ''Y''] rules_S4)
   \<and> ''Y'' \<notin> valid_tiles (load_TileAtlas [''X'', ''Y''] rules_S4) engine_pair_X 1 0
   \<and> \<not> admissible (raw_TileAtlas [''X'', ''Y''] rules_S4) engine_pair_X 1 0 ''Y''
   \<and> atlas engine_pair_X = Some (load_TileAtlas [''X'', ''Y''] rules_S4)
   \<and> scan_cells (cells engine_pair_X) \<infinity> [] = Inr [(1, 0)]
   \<and> priv_step engine_pair_X (1, 0) ''X'' \<noteq> None
   \<and> priv_step engine_pair_X (1, 0) ''Y'' = None
   \<and> (\<exists>s'. priv_propagate engine_pair_X 0 0 = Inr s'
          \<and> written_admissible (raw_TileAtlas [''X'', ''Y''] rules_S4) engine_pair_X s')"
proof -
  let ?raw = "raw_TileAtlas [''X'', ''Y''] rules_S4"
  let ?loaded = "load_TileAtlas [''X'', ''Y''] rules_S4"
  have A: "?loaded = build_adjacency_lookup ?raw"
    by (simp add: load_TileAtlas_def)
  have x: "''X'' \<in> valid_tiles ?loaded engine_pair_X 1 0"
    by code_simp
  have y: "''Y'' \<notin> valid_tiles ?loaded engine_pair_X 1 0"
    by code_simp
  have ye: "''Y'' \<in> get_enabled_tile_ids ?raw"
    by code_simp
  have at: "atlas engine_pair_X = Some ?loaded"
    by (simp add: engine_pair_X_def engine_pair_def atlas_initialize)
  have sc: "scan_cells (cells engine_pair_X) \<infinity> [] = Inr [(1, 0)]"
    by code_simp
  have ne: "valid_tiles ?loaded engine_pair_X 1 0 \<noteq> {}"
    using x by auto
  have st: "priv_step engine_pair_X (1, 0) ''X'' \<noteq> None"
    by code_simp
  have sn: "priv_step engine_pair_X (1, 0) ''Y'' = None"
    by code_simp
  from at obtain s' where p: "priv_propagate engine_pair_X 0 0 = Inr s'"
    using priv_propagate_loop_returns [of engine_pair_X] by (auto simp: priv_propagate_def)
  note both = solver_requires_both_directed_rules [of _ ?raw engine_pair_X 1 0, folded A]
  from both [of "''X''"] x have ax: "admissible ?raw engine_pair_X 1 0 ''X''"
    by simp
  from both [of "''Y''"] y ye have ay: "\<not> admissible ?raw engine_pair_X 1 0 ''Y''"
    by simp
  from solver_requires_both_directed_rules [of "''X''" ?raw engine_pair_X 0 0, folded A] at p
  have "written_admissible ?raw engine_pair_X s'"
    by simp
  with p x ax ye y ay at sc st sn show ?thesis
    by blast
qed

lemma validate_grid_empty_iff:
  "atlas s = Some (build_adjacency_lookup a) \<Longrightarrow>
   validate_grid s = [] \<longleftrightarrow> (\<forall>x y sd t n. adjacent_collapsed s x y sd t n \<longrightarrow> has_rule a t sd n)"
proof -
  assume a: "atlas s = Some (build_adjacency_lookup a)"
  have "validate_grid s = [] \<longleftrightarrow> set (validate_grid s) = {}"
    by simp
  also have "\<dots> \<longleftrightarrow> (\<forall>x y sd t n. adjacent_collapsed s x y sd t n \<longrightarrow> has_rule a t sd n)"
    unfolding validate_grid_set [OF a] by blast
  finally show ?thesis .
qed

text \<open>
  C6: with an atlas loaded (its lookup tables built from its rules), \<open>validate_grid\<close>
  returns the empty list if and only if for every pair of adjacent collapsed cells, tile
  \<open>t\<close> at \<open>(x, y)\<close> and tile \<open>n\<close> on its side \<open>sd\<close>, the rule \<open>(t, sd, n)\<close> is in the atlas;
  and for every such pair without the rule, the message naming the cell, the two tiles and
  the side is in the list.
\<close>

theorem validate_grid_reports_missing_rules:
  "atlas s = Some (build_adjacency_lookup a) \<Longrightarrow>
     (validate_grid s = [] \<longleftrightarrow>
        (\<forall>x y sd t n. adjacent_collapsed s x y sd t n \<longrightarrow> has_rule a t sd n))
     \<and> (\<forall>x y sd t n. adjacent_collapsed s x y sd t n \<longrightarrow> \<not> has_rule a t sd n \<longrightarrow>
           violation_message x y t n sd \<in> set (validate_grid s))"
proof (intro conjI allI impI)
  assume a: "atlas s = Some (build_adjacency_lookup a)"
  show "validate_grid s = [] \<longleftrightarrow>
        (\<forall>x y sd t n. adjacent_collapsed s x y sd t n \<longrightarrow> has_rule a t sd n)"
    by (rule validate_grid_empty_iff [OF a])
  fix x y sd t n
  assume "adjacent_collapsed s x y sd t n" "\<not> has_rule a t sd n"
  then show "violation_message x y t n sd \<in> set (validate_grid s)"
    unfolding validate_grid_set [OF a] by blast
qed

theorem validate_grid_reports_missing_rules_witness:
  "atlas engine_pair_XY = Some (load_TileAtlas [''X'', ''Y''] rules_S4)
   \<and> adjacent_collapsed engine_pair_XY 0 0 Right ''X'' ''Y''
   \<and> \<not> has_rule (raw_TileAtlas [''X'', ''Y''] rules_S4) ''X'' Right ''Y''
   \<and> violation_message 0 0 ''X'' ''Y'' Right \<in> set (validate_grid engine_pair_XY)
   \<and> validate_grid engine_pair_XY =
       [''(0,0) '' @ [CHR 0x27] @ ''X'' @ [CHR 0x27] @ '' does not allow '' @ [CHR 0x27] @ ''Y''
          @ [CHR 0x27] @ '' on right'',
        ''(1,0) '' @ [CHR 0x27] @ ''Y'' @ [CHR 0x27] @ '' does not allow '' @ [CHR 0x27] @ ''X''
          @ [CHR 0x27] @ '' on left'']
   \<and> atlas engine_pair_XX = Some (load_TileAtlas [''X'', ''Y''] rules_S4)
   \<and> validate_grid engine_pair_XX = []
   \<and> adjacent_collapsed engine_pair_XX 0 0 Right ''X'' ''X''
   \<and> has_rule (raw_TileAtlas [''X'', ''Y''] rules_S4) ''X'' Right ''X''"
proof -
  let ?raw = "raw_TileAtlas [''X'', ''Y''] rules_S4"
  let ?loaded = "load_TileAtlas [''X'', ''Y''] rules_S4"
  have A: "?loaded = build_adjacency_lookup ?raw"
    by (simp add: load_TileAtlas_def)
  have at: "atlas engine_pair_XY = Some ?loaded"
    by (simp add: engine_pair_XY_def engine_pair_def atlas_initialize)
  have at': "atlas engine_pair_XX = Some ?loaded"
    by (simp add: engine_pair_XX_def engine_pair_def atlas_initialize)
  have ac: "adjacent_collapsed engine_pair_XY 0 0 Right ''X'' ''Y''"
    by (rule adjacent_collapsedI [where nx = 1 and ny = 0]; code_simp)
  have ac': "adjacent_collapsed engine_pair_XX 0 0 Right ''X'' ''X''"
    by (rule adjacent_collapsedI [where nx = 1 and ny = 0]; code_simp)
  have nr: "\<not> has_rule ?raw ''X'' Right ''Y''"
    by code_simp
  have v: "validate_grid engine_pair_XY =
       [''(0,0) '' @ [CHR 0x27] @ ''X'' @ [CHR 0x27] @ '' does not allow '' @ [CHR 0x27] @ ''Y''
          @ [CHR 0x27] @ '' on right'',
        ''(1,0) '' @ [CHR 0x27] @ ''Y'' @ [CHR 0x27] @ '' does not allow '' @ [CHR 0x27] @ ''X''
          @ [CHR 0x27] @ '' on left'']"
    by code_simp
  have v': "validate_grid engine_pair_XX = []"
    by code_simp
  from validate_grid_reports_missing_rules [OF at [unfolded A]] ac nr
  have m: "violation_message 0 0 ''X'' ''Y'' Right \<in> set (validate_grid engine_pair_XY)"
    by blast
  from validate_grid_reports_missing_rules [OF at' [unfolded A]] v' ac'
  have "has_rule ?raw ''X'' Right ''X''"
    by blast
  with at at' ac ac' nr v v' m show ?thesis
    by blast
qed



section \<open>Properties of the engine operations\<close>

lemma frame_refl: "frame s s"
  by (simp add: frame_def)

lemma priv_propagate_frame: "priv_propagate s x y = Inr s' \<Longrightarrow> frame s s'"
  by (simp add: priv_propagate_def priv_propagate_loop_frame)

lemma priv_propagate_cell_inv: "priv_propagate s x y = Inr s' \<Longrightarrow> cell_inv s \<Longrightarrow> cell_inv s'"
  by (simp add: priv_propagate_def priv_propagate_loop_cell_inv)

lemma priv_propagate_returns: "atlas s \<noteq> None \<Longrightarrow> \<exists>s'. priv_propagate s x y = Inr s'"
  by (simp add: priv_propagate_def priv_propagate_loop_returns)

lemma lock_cell_unfold:
  "map_of (cells s) (x, y) = Some c \<Longrightarrow>
   lock_cell s x y t =
     priv_propagate
       (s\<lparr>cells := AList.update (x, y)
                     (c\<lparr>collapsed_tile := Some t, locked := True, possibilities := {t}\<rparr>) (cells s),
          emitted := emitted s @
            [cell_collapsed x y t, progress_updated (collapsed_count s) (total_cells s)]\<rparr>) x y"
  by (simp add: lock_cell_def Let_def is_collapsed_def)

lemma lock_cell_cell_inv:
  assumes "cell_inv s" "lock_cell s x y t = Inr s'"
  shows "cell_inv s'"
proof (cases "map_of (cells s) (x, y)")
  case None
  with assms show ?thesis by (simp add: lock_cell_def)
next
  case (Some c)
  let ?c = "c\<lparr>collapsed_tile := Some t, locked := True, possibilities := {t}\<rparr>"
  let ?s = "s\<lparr>cells := AList.update (x, y) ?c (cells s),
          emitted := emitted s @
            [cell_collapsed x y t, progress_updated (collapsed_count s) (total_cells s)]\<rparr>"
  have "cell_ok ?c" by (simp add: cell_ok_def)
  from cell_inv_update [OF assms(1) this, of ?s] have "cell_inv ?s" by simp
  with assms(2) Some show ?thesis
    by (simp add: lock_cell_unfold priv_propagate_cell_inv)
qed

lemma repropagate_frame: "repropagate s l = Inr s' \<Longrightarrow> frame s s'"
proof (induction l arbitrary: s)
  case Nil
  then show ?case by (simp add: frame_refl)
next
  case (Cons p l)
  obtain nx ny where p: "p = (nx, ny)" by (cases p)
  show ?case
  proof (cases "map_of (cells s) (nx, ny)")
    case None
    with Cons.prems p show ?thesis by simp
  next
    case (Some n)
    show ?thesis
    proof (cases "is_collapsed n")
      case False
      with Some Cons p show ?thesis by simp
    next
      case True
      with Some Cons.prems p obtain s1 where s1: "priv_propagate s nx ny = Inr s1"
        and r: "repropagate s1 l = Inr s'"
        by (auto split: sum.splits)
      from frame_trans [OF priv_propagate_frame [OF s1] Cons.IH [OF r]] show ?thesis .
    qed
  qed
qed

lemma repropagate_cell_inv: "repropagate s l = Inr s' \<Longrightarrow> cell_inv s \<Longrightarrow> cell_inv s'"
proof (induction l arbitrary: s)
  case Nil
  then show ?case by simp
next
  case (Cons p l)
  obtain nx ny where p: "p = (nx, ny)" by (cases p)
  show ?case
  proof (cases "map_of (cells s) (nx, ny)")
    case None
    with Cons.prems p show ?thesis by simp
  next
    case (Some n)
    show ?thesis
    proof (cases "is_collapsed n")
      case False
      with Some Cons p show ?thesis by simp
    next
      case True
      with Some Cons.prems p obtain s1 where s1: "priv_propagate s nx ny = Inr s1"
        and r: "repropagate s1 l = Inr s'"
        by (auto split: sum.splits)
      from Cons.IH [OF r priv_propagate_cell_inv [OF s1 Cons.prems(2)]] show ?thesis .
    qed
  qed
qed

lemma frame_keys: "frame s s' \<Longrightarrow> map_of (cells s') p \<noteq> None \<longleftrightarrow> map_of (cells s) p \<noteq> None"
proof -
  assume "frame s s'"
  then have "fst ` set (cells s') = fst ` set (cells s)"
    unfolding frame_def by (metis set_map)
  then show ?thesis
    by (simp add: map_of_eq_None_iff)
qed

lemma repropagate_returns:
  "atlas s \<noteq> None \<Longrightarrow> \<forall>p \<in> set l. map_of (cells s) p \<noteq> None \<Longrightarrow> \<exists>s'. repropagate s l = Inr s'"
proof (induction l arbitrary: s)
  case Nil
  show ?case by simp
next
  case (Cons p l)
  obtain nx ny where p: "p = (nx, ny)" by (cases p)
  from Cons.prems p obtain n where n: "map_of (cells s) (nx, ny) = Some n" by auto
  show ?case
  proof (cases "is_collapsed n")
    case False
    with n p Cons show ?thesis by simp
  next
    case True
    from priv_propagate_returns [OF Cons.prems(1)] obtain s1 where s1: "priv_propagate s nx ny = Inr s1"
      by blast
    from priv_propagate_frame [OF s1] have f: "frame s s1" .
    then have "atlas s1 \<noteq> None" using Cons.prems(1) by (simp add: frame_def)
    moreover have "\<forall>p \<in> set l. map_of (cells s1) p \<noteq> None"
      using Cons.prems(2) frame_keys [OF f] by simp
    ultimately obtain s' where "repropagate s1 l = Inr s'"
      using Cons.IH by blast
    with n p True s1 show ?thesis by simp
  qed
qed


lemma observe_Inr: "observe f r = Some (Inr v) \<longleftrightarrow> (\<exists>s. r = Some (Inr s) \<and> f s = v)"
proof (cases r)
  case None
  then show ?thesis by (simp add: observe_def)
next
  case (Some e)
  then show ?thesis by (cases e) (auto simp: observe_def)
qed

lemma initialize_cell_inv: "cell_inv (initialize s a w h)"
  by (auto simp: cell_inv_def initialize_def Let_def set_state_def cell_ok_def)

lemma initialize_keys:
  "map_of (cells (initialize s a w h)) (x, y) = None \<longleftrightarrow> \<not> (0 \<le> x \<and> x < w \<and> 0 \<le> y \<and> y < h)"
proof -
  have "fst ` set (cells (initialize s a w h)) = {(x, y). 0 \<le> x \<and> x < w \<and> 0 \<le> y \<and> y < h}"
    by (auto simp: initialize_def Let_def set_state_def image_iff)
  then show ?thesis
    by (simp add: map_of_eq_None_iff)
qed

lemma priv_get_neighbors_cong:
  "width s' = width s \<Longrightarrow> height s' = height s \<Longrightarrow>
   priv_get_neighbors s' x y = priv_get_neighbors s x y"
  by (simp add: priv_get_neighbors_def)

lemma unlock_cell_unfold:
  assumes "map_of (cells s) (x, y) = Some c" "atlas s = Some a"
  shows "\<exists>s4. unlock_cell s x y = repropagate s4 (priv_get_neighbors s x y)
           \<and> state s4 = (if (is_collapsed c \<or> card (possibilities c) = 0)
                              \<and> (state s = FINISHED \<or> state s = CONTRADICTION)
                           then IDLE else state s)
           \<and> cells s4 = AList.update (x, y)
                 (c\<lparr>locked := False, collapsed_tile := None,
                    possibilities := get_enabled_tile_ids a\<rparr>) (cells s)
           \<and> atlas s4 = atlas s"
proof -
  define cell where "cell = c\<lparr>locked := False, collapsed_tile := None,
                                 possibilities := get_enabled_tile_ids a\<rparr>"
  define s1 where "s1 = s\<lparr>cells := AList.update (x, y) cell (cells s)\<rparr>"
  define s2 where "s2 = (if is_collapsed c
                          then s1\<lparr>collapsed_count := collapsed_count s1 - 1\<rparr> else s1)"
  define s3 where "s3 = (if (is_collapsed c \<or> card (possibilities c) = 0)
                             \<and> (state s2 = FINISHED \<or> state s2 = CONTRADICTION)
                          then set_state s2 IDLE else s2)"
  define s4 where "s4 = s3\<lparr>emitted := emitted s3 @
                             [cell_updated x y,
                              progress_updated (collapsed_count s3) (total_cells s3)]\<rparr>"
  have u: "unlock_cell s x y = repropagate s4 (priv_get_neighbors s4 x y)"
    unfolding unlock_cell_def Let_def s4_def s3_def s2_def s1_def cell_def
    by (simp only: assms option.case)
  have f: "atlas s4 = atlas s" "cells s4 = AList.update (x, y) cell (cells s)"
    "width s4 = width s" "height s4 = height s"
    by (simp_all add: s4_def s3_def s2_def s1_def set_state_def)
  have st2: "state s2 = state s"
    by (simp add: s2_def s1_def)
  have st: "state s4 = (if (is_collapsed c \<or> card (possibilities c) = 0)
                              \<and> (state s = FINISHED \<or> state s = CONTRADICTION)
                           then IDLE else state s)"
    by (simp add: s4_def s3_def st2 set_state_def)
  from u f st priv_get_neighbors_cong [OF f(3,4)] show ?thesis
    by (auto simp: cell_def)
qed

lemma unlock_cell_Inr:
  assumes "unlock_cell s x y = Inr s'" "map_of (cells s) (x, y) = Some c"
  shows "\<exists>a s4. atlas s = Some a \<and> repropagate s4 (priv_get_neighbors s x y) = Inr s'
           \<and> state s4 = (if (is_collapsed c \<or> card (possibilities c) = 0)
                              \<and> (state s = FINISHED \<or> state s = CONTRADICTION)
                           then IDLE else state s)
           \<and> cells s4 = AList.update (x, y)
                 (c\<lparr>locked := False, collapsed_tile := None,
                    possibilities := get_enabled_tile_ids a\<rparr>) (cells s)"
proof (cases "atlas s")
  case None
  with assms show ?thesis by (simp add: unlock_cell_def)
next
  case (Some a)
  from unlock_cell_unfold [OF assms(2) Some] assms(1) Some show ?thesis
    by metis
qed

lemma unlock_cell_state:
  assumes "unlock_cell s x y = Inr s'" "map_of (cells s) (x, y) = Some c"
  shows "state s' = (if (is_collapsed c \<or> card (possibilities c) = 0)
                         \<and> (state s = FINISHED \<or> state s = CONTRADICTION)
                      then IDLE else state s)"
proof -
  from unlock_cell_Inr [OF assms] obtain a s4 where
    r: "repropagate s4 (priv_get_neighbors s x y) = Inr s'"
    and st: "state s4 = (if (is_collapsed c \<or> card (possibilities c) = 0)
                              \<and> (state s = FINISHED \<or> state s = CONTRADICTION)
                           then IDLE else state s)"
    by blast
  from repropagate_frame [OF r] have "state s' = state s4" by (simp add: frame_def)
  with st show ?thesis by simp
qed

lemma unlock_cell_cell_inv:
  assumes "cell_inv s" "unlock_cell s x y = Inr s'"
  shows "cell_inv s'"
proof (cases "map_of (cells s) (x, y)")
  case None
  with assms show ?thesis by (simp add: unlock_cell_def)
next
  case (Some c)
  from unlock_cell_Inr [OF assms(2) Some] obtain a s4 where
    r: "repropagate s4 (priv_get_neighbors s x y) = Inr s'"
    and c: "cells s4 = AList.update (x, y)
                 (c\<lparr>locked := False, collapsed_tile := None,
                    possibilities := get_enabled_tile_ids a\<rparr>) (cells s)"
    by blast
  have "cell_ok (c\<lparr>locked := False, collapsed_tile := None,
                    possibilities := get_enabled_tile_ids a\<rparr>)"
    by (simp add: cell_ok_def)
  from cell_inv_update [OF assms(1) this c] have "cell_inv s4" .
  from repropagate_cell_inv [OF r this] show ?thesis .
qed

lemma unlock_cell_returns:
  assumes "atlas s \<noteq> None" "map_of (cells s) (x, y) = Some c"
    and "\<forall>p \<in> set (priv_get_neighbors s x y). map_of (cells s) p \<noteq> None"
  shows "\<exists>s'. unlock_cell s x y = Inr s'"
proof -
  from assms(1) obtain a where a: "atlas s = Some a" by auto
  from unlock_cell_unfold [OF assms(2) a] obtain s4 where
    u: "unlock_cell s x y = repropagate s4 (priv_get_neighbors s x y)"
    and c: "cells s4 = AList.update (x, y)
                 (c\<lparr>locked := False, collapsed_tile := None,
                    possibilities := get_enabled_tile_ids a\<rparr>) (cells s)"
    and at: "atlas s4 = atlas s"
    by blast
  have "\<forall>p \<in> set (priv_get_neighbors s x y). map_of (cells s4) p \<noteq> None"
    using assms(3) by (simp add: c update_conv')
  with repropagate_returns [of s4 "priv_get_neighbors s x y"] assms(1) at u
  show ?thesis by simp
qed



lemma priv_step_contradiction_scan:
  "scan_cells (cells s) \<infinity> [] = Inl (cx, cy) \<Longrightarrow>
   priv_step s chosen t = Some (Inr (stop_with_contradiction s cx cy))"
  by (simp add: priv_step_def)

lemma priv_step_finished:
  "scan_cells (cells s) \<infinity> [] = Inr [] \<Longrightarrow>
   priv_step s chosen t =
     Some (Inr ((set_state (s\<lparr>timer_active := False\<rparr>) FINISHED)
                  \<lparr>emitted := emitted (set_state (s\<lparr>timer_active := False\<rparr>) FINISHED)
                                @ [finished True]\<rparr>))"
  by (simp add: priv_step_def Let_def)

lemma priv_step_not_candidate:
  "scan_cells (cells s) \<infinity> [] = Inr cands \<Longrightarrow> cands \<noteq> [] \<Longrightarrow> chosen \<notin> set cands \<Longrightarrow>
   priv_step s chosen t = None"
  by (simp add: priv_step_def)

lemma priv_step_candidate:
  "scan_cells (cells s) \<infinity> [] = Inr cands \<Longrightarrow> cands \<noteq> [] \<Longrightarrow> (x, y) \<in> set cands \<Longrightarrow>
   map_of (cells s) (x, y) = Some cell \<Longrightarrow> atlas s = Some a \<Longrightarrow>
   priv_step s (x, y) t =
     (if valid_tiles a s x y = {} then Some (Inr (stop_with_contradiction s x y))
      else if t \<notin> valid_tiles a s x y then None
      else Some (priv_propagate
                   (s\<lparr>cells := AList.update (x, y)
                         (cell\<lparr>collapsed_tile := Some t, possibilities := {t}\<rparr>) (cells s),
                      collapsed_count := collapsed_count s + 1,
                      emitted := emitted s @
                        [cell_collapsed x y t,
                         progress_updated (collapsed_count s + 1) (total_cells s)]\<rparr>) x y))"
  by (simp add: priv_step_def Let_def)

lemma priv_step_no_atlas:
  "scan_cells (cells s) \<infinity> [] = Inr cands \<Longrightarrow> cands \<noteq> [] \<Longrightarrow> (x, y) \<in> set cands \<Longrightarrow>
   map_of (cells s) (x, y) = Some cell \<Longrightarrow> atlas s = None \<Longrightarrow>
   priv_step s (x, y) t = Some (Inl AttributeError)"
  by (simp add: priv_step_def)

lemma cells_stop_with_contradiction: "cells (stop_with_contradiction s x y) = cells s"
  by (simp add: stop_with_contradiction_def set_state_def Let_def)

lemma priv_step_cell_inv:
  assumes "cell_inv s" "priv_step s chosen t = Some (Inr s')"
  shows "cell_inv s'"
proof (cases "scan_cells (cells s) \<infinity> []")
  case (Inl pos)
  obtain cx cy where "pos = (cx, cy)" by (cases pos)
  with Inl have "priv_step s chosen t = Some (Inr (stop_with_contradiction s cx cy))"
    by (intro priv_step_contradiction_scan) simp
  with assms(2) have "s' = stop_with_contradiction s cx cy"
    by simp
  with assms(1) show ?thesis
    by (simp add: cell_inv_def cells_stop_with_contradiction)
next
  case (Inr cands)
  show ?thesis
  proof (cases "cands = []")
    case True
    with Inr assms(2) have "cells s' = cells s"
      by (auto simp: priv_step_finished set_state_def)
    with assms(1) show ?thesis by (simp add: cell_inv_def)
  next
    case False
    obtain x y where ch: "chosen = (x, y)" by (cases chosen)
    from assms(2) priv_step_not_candidate [OF Inr False, of chosen t] ch
    have m: "(x, y) \<in> set cands" by auto
    with scan_cells_keys [OF Inr] have "(x, y) \<in> fst ` set (cells s)" by auto
    then obtain cell where c: "map_of (cells s) (x, y) = Some cell"
      by (metis map_of_eq_None_iff not_None_eq)
    from assms(2) ch priv_step_no_atlas [OF Inr False m c, of t]
    obtain a where a: "atlas s = Some a" by (cases "atlas s") auto
    note u = priv_step_candidate [OF Inr False m c a, of t]
    show ?thesis
    proof (cases "valid_tiles a s x y = {}")
      case True
      with u assms(2) ch have "s' = stop_with_contradiction s x y" by simp
      with assms(1) show ?thesis
        by (simp add: cell_inv_def cells_stop_with_contradiction)
    next
      case ne: False
      let ?c = "cell\<lparr>collapsed_tile := Some t, possibilities := {t}\<rparr>"
      let ?s = "s\<lparr>cells := AList.update (x, y) ?c (cells s),
                  collapsed_count := collapsed_count s + 1,
                  emitted := emitted s @
                    [cell_collapsed x y t,
                     progress_updated (collapsed_count s + 1) (total_cells s)]\<rparr>"
      from u assms(2) ch ne have p: "priv_propagate ?s x y = Inr s'"
        by (simp split: if_splits)
      have "cell_ok ?c" by (simp add: cell_ok_def)
      from cell_inv_update [OF assms(1) this, of ?s] have "cell_inv ?s" by simp
      from priv_propagate_cell_inv [OF p this] show ?thesis .
    qed
  qed
qed

lemma relock_cell_inv:
  "cell_inv s \<Longrightarrow> relock s l = Inr s' \<Longrightarrow> cell_inv s'"
proof (induction s l rule: relock.induct)
  case (1 s)
  then show ?case by simp
next
  case (2 s x y rest)
  then show ?case by simp
next
  case (3 s x y tid rest)
  from "3.prems"(2) obtain s1 where l: "lock_cell s x y tid = Inr s1" and r: "relock s1 rest = Inr s'"
    by (auto split: sum.splits)
  from "3.IH" [OF l lock_cell_cell_inv [OF "3.prems"(1) l] r] show ?case .
qed

lemma reset_cell_inv: "cell_inv s \<Longrightarrow> reset s = Inr s' \<Longrightarrow> cell_inv s'"
  by (cases "atlas s") (auto simp: reset_def Let_def intro: relock_cell_inv initialize_cell_inv)

lemma clear_all_cell_inv: "cell_inv s \<Longrightarrow> cell_inv (clear_all s)"
  by (cases "atlas s") (simp_all add: clear_all_def initialize_cell_inv)



lemma run_snoc:
  "run s cs = Some (Inr s1) \<Longrightarrow>
   run s (cs @ [c]) = (case call s1 c of Some (Inr s2) \<Rightarrow> Some (Inr s2) | r \<Rightarrow> r)"
proof (induction cs arbitrary: s)
  case Nil
  then show ?case by (simp split: option.splits sum.splits)
next
  case (Cons d cs)
  then show ?case by (simp split: option.splits sum.splits)
qed

lemma cell_ok_code [code]:
  "cell_ok c \<longleftrightarrow>
     (case collapsed_tile c of None \<Rightarrow> \<not> locked c | Some t \<Rightarrow> possibilities c = {t})"
  by (auto simp: cell_ok_def split: option.splits)

section \<open>Unlocking, the cell invariant and the collapsed count\<close>

text \<open>
  C7, as stated, fails. \<open>unlock_cell\<close> leaves the state as it is when the cell was neither
  collapsed nor without possibilities: on three cells in a row with the atlas of S5, after
  \<open>lock_cell(0, 0, 'Y')\<close> and one step the engine is in CONTRADICTION, the cell \<open>(2, 0)\<close> is
  in bounds, uncollapsed, with both tiles possible, and \<open>unlock_cell(2, 0)\<close> leaves the engine
  in CONTRADICTION. And in S5 itself \<open>unlock_cell(0, 0)\<close> yields IDLE with cell \<open>(0, 0)\<close>
  restored, but cell \<open>(1, 0)\<close> keeps its empty possibility set.
\<close>

theorem unlock_cell_keeps_contradiction_counterexample:
  "observe (\<lambda>s. (state s, width s, height s, map_option is_collapsed (map_of (cells s) (2, 0)),
                  map_option possibilities (map_of (cells s) (2, 0))))
     (run engine_S5_wide [Lock 0 0 ''Y'', Step (0, 0) []])
     = Some (Inr (CONTRADICTION, 3, 1, Some False, Some {''X'', ''Y''}))
   \<and> observe state (run engine_S5_wide [Lock 0 0 ''Y'', Step (0, 0) [], Unlock 2 0])
     = Some (Inr CONTRADICTION)
   \<and> observe state (run engine_S5 [Lock 0 0 ''Y'', Step (0, 0) []]) = Some (Inr CONTRADICTION)
   \<and> get_enabled_tile_ids atlas_S5 = {''X'', ''Y''}
   \<and> observe (\<lambda>s. (state s, map_option possibilities (map_of (cells s) (0, 0)),
                    map_option possibilities (map_of (cells s) (1, 0))))
     (run engine_S5 [Lock 0 0 ''Y'', Step (0, 0) [], Unlock 0 0])
     = Some (Inr (IDLE, Some {''X'', ''Y''}, Some {}))"
  by code_simp

text \<open>
  C7 (amended): for a cell that is in the grid and is collapsed or has no possibility left,
  \<open>unlock_cell(x, y)\<close> in the state FINISHED or CONTRADICTION takes the engine to IDLE; for
  a cell that is not collapsed and has a possibility left, it leaves the state as it is.
  The call returns when an atlas is loaded and the neighbours in bounds are cells of the
  grid. From the contradiction state of S5, \<open>unlock_cell(0, 0)\<close> yields the state IDLE with
  cell \<open>(0, 0)\<close> restored to the set of enabled tiles.
\<close>

theorem unlock_cell_returns_to_idle:
  "(map_of (cells s) (x, y) = Some c \<longrightarrow> (state s = FINISHED \<or> state s = CONTRADICTION) \<longrightarrow>
      (\<forall>s'. unlock_cell s x y = Inr s' \<longrightarrow>
         state s' = (if is_collapsed c \<or> card (possibilities c) = 0 then IDLE else state s))
      \<and> (atlas s \<noteq> None \<longrightarrow>
            (\<forall>p \<in> set (priv_get_neighbors s x y). map_of (cells s) p \<noteq> None) \<longrightarrow>
            (\<exists>s'. unlock_cell s x y = Inr s')))
   \<and> observe (\<lambda>s. (state s, map_option possibilities (map_of (cells s) (0, 0))))
        (run engine_S5 [Lock 0 0 ''Y'', Step (0, 0) [], Unlock 0 0])
       = Some (Inr (IDLE, Some (get_enabled_tile_ids atlas_S5)))"
proof (intro conjI allI impI)
  fix s'
  assume "map_of (cells s) (x, y) = Some c" "state s = FINISHED \<or> state s = CONTRADICTION"
    "unlock_cell s x y = Inr s'"
  from unlock_cell_state [OF this(3,1)] this(2)
  show "state s' = (if is_collapsed c \<or> card (possibilities c) = 0 then IDLE else state s)"
    by simp
next
  assume "map_of (cells s) (x, y) = Some c" "atlas s \<noteq> None"
    "\<forall>p \<in> set (priv_get_neighbors s x y). map_of (cells s) p \<noteq> None"
  from unlock_cell_returns [OF this(2,1,3)] show "\<exists>s'. unlock_cell s x y = Inr s'" .
next
  show "observe (\<lambda>s. (state s, map_option possibilities (map_of (cells s) (0, 0))))
        (run engine_S5 [Lock 0 0 ''Y'', Step (0, 0) [], Unlock 0 0])
       = Some (Inr (IDLE, Some (get_enabled_tile_ids atlas_S5)))"
    by code_simp
qed

theorem unlock_cell_returns_to_idle_witness:
  "observe (\<lambda>s. (state s, map_option is_collapsed (map_of (cells s) (0, 0)), atlas s \<noteq> None,
                  \<forall>p \<in> set (priv_get_neighbors s 0 0). map_of (cells s) p \<noteq> None))
     (run engine_S5 [Lock 0 0 ''Y'', Step (0, 0) []])
     = Some (Inr (CONTRADICTION, Some True, True, True))
   \<and> observe state (run engine_S5 [Lock 0 0 ''Y'', Step (0, 0) [], Unlock 0 0]) = Some (Inr IDLE)
   \<and> observe (\<lambda>s. (state s, map_option is_collapsed (map_of (cells s) (2, 0)),
                    map_option (\<lambda>c. card (possibilities c)) (map_of (cells s) (2, 0)),
                    atlas s \<noteq> None,
                    \<forall>p \<in> set (priv_get_neighbors s 2 0). map_of (cells s) p \<noteq> None))
     (run engine_S5_wide [Lock 0 0 ''Y'', Step (0, 0) []])
     = Some (Inr (CONTRADICTION, Some False, Some 2, True, True))
   \<and> observe state (run engine_S5_wide [Lock 0 0 ''Y'', Step (0, 0) [], Unlock 2 0])
     = Some (Inr CONTRADICTION)"
proof -
  have e1: "observe (\<lambda>s. (state s, map_option is_collapsed (map_of (cells s) (0, 0)), atlas s \<noteq> None,
                  \<forall>p \<in> set (priv_get_neighbors s 0 0). map_of (cells s) p \<noteq> None))
     (run engine_S5 [Lock 0 0 ''Y'', Step (0, 0) []])
     = Some (Inr (CONTRADICTION, Some True, True, True))"
    by code_simp
  then obtain s where r: "run engine_S5 [Lock 0 0 ''Y'', Step (0, 0) []] = Some (Inr s)"
    and st: "state s = CONTRADICTION" and a: "atlas s \<noteq> None"
    and n: "\<forall>p \<in> set (priv_get_neighbors s 0 0). map_of (cells s) p \<noteq> None"
    and cc: "map_option is_collapsed (map_of (cells s) (0, 0)) = Some True"
    by (auto simp: observe_Inr)
  from cc obtain c where c: "map_of (cells s) (0, 0) = Some c" and ic: "is_collapsed c"
    by auto
  from unlock_cell_returns_to_idle [of s 0 0 c] c st a n obtain s' where
    u: "unlock_cell s 0 0 = Inr s'"
    by blast
  with unlock_cell_returns_to_idle [of s 0 0 c] c st ic have i: "state s' = IDLE"
    by simp
  from run_snoc [OF r, of "Unlock 0 0"] u
  have "run engine_S5 [Lock 0 0 ''Y'', Step (0, 0) [], Unlock 0 0] = Some (Inr s')"
    by simp
  with i have w1: "observe state (run engine_S5 [Lock 0 0 ''Y'', Step (0, 0) [], Unlock 0 0])
                   = Some (Inr IDLE)"
    by (simp add: observe_def)
  have e2: "observe (\<lambda>s. (state s, map_option is_collapsed (map_of (cells s) (2, 0)),
                    map_option (\<lambda>c. card (possibilities c)) (map_of (cells s) (2, 0)),
                    atlas s \<noteq> None,
                    \<forall>p \<in> set (priv_get_neighbors s 2 0). map_of (cells s) p \<noteq> None))
     (run engine_S5_wide [Lock 0 0 ''Y'', Step (0, 0) []])
     = Some (Inr (CONTRADICTION, Some False, Some 2, True, True))"
    by code_simp
  then obtain s2 where r2: "run engine_S5_wide [Lock 0 0 ''Y'', Step (0, 0) []] = Some (Inr s2)"
    and st2: "state s2 = CONTRADICTION" and a2: "atlas s2 \<noteq> None"
    and n2: "\<forall>p \<in> set (priv_get_neighbors s2 2 0). map_of (cells s2) p \<noteq> None"
    and cc2: "map_option is_collapsed (map_of (cells s2) (2, 0)) = Some False"
    and cd2: "map_option (\<lambda>c. card (possibilities c)) (map_of (cells s2) (2, 0)) = Some 2"
    by (auto simp: observe_Inr)
  from cc2 cd2 obtain c2 where c2: "map_of (cells s2) (2, 0) = Some c2"
    and ic2: "\<not> is_collapsed c2" and k2: "card (possibilities c2) = 2"
    by auto
  from unlock_cell_returns_to_idle [of s2 2 0 c2] c2 st2 a2 n2 obtain s2' where
    u2: "unlock_cell s2 2 0 = Inr s2'"
    by blast
  with unlock_cell_returns_to_idle [of s2 2 0 c2] c2 st2 ic2 k2
  have i2: "state s2' = CONTRADICTION"
    by simp
  from run_snoc [OF r2, of "Unlock 2 0"] u2
  have "run engine_S5_wide [Lock 0 0 ''Y'', Step (0, 0) [], Unlock 2 0] = Some (Inr s2')"
    by simp
  with i2 have w2: "observe state (run engine_S5_wide [Lock 0 0 ''Y'', Step (0, 0) [], Unlock 2 0])
                   = Some (Inr CONTRADICTION)"
    by (simp add: observe_def)
  from e1 w1 e2 w2 show ?thesis
    by blast
qed

text \<open>
  C8, as stated, fails for the second call: \<open>unlock_cell\<close> on a position that is not a cell
  of the grid returns at its first test, raises nothing and leaves the engine as it was.
\<close>

theorem unlock_out_of_bounds_counterexample:
  "width engine_S5 = 2 \<and> height engine_S5 = 1 \<and> map_of (cells engine_S5) (5, 5) = None
   \<and> unlock_cell engine_S5 5 5 = Inr engine_S5"
proof -
  have "width engine_S5 = 2" "height engine_S5 = 1" "map_of (cells engine_S5) (5, 5) = None"
    by code_simp+
  then show ?thesis
    by (simp add: unlock_cell_def)
qed

text \<open>
  C8 (amended): removing the identity variant of a base tile raises \<open>ValueError\<close> and
  leaves the atlas unchanged; unlocking a position that is not a cell of the grid (for an
  initialized grid: a position out of bounds) raises nothing, and the call returns with the
  engine unchanged.
\<close>

theorem remove_identity_raises_unlock_outside_returns:
  "(\<forall>t. get_tile a tid = Some t \<longrightarrow> is_original t \<longrightarrow> remove_tile a tid = (Some ValueError, a))
   \<and> (map_of (cells s) (x, y) = None \<longrightarrow> unlock_cell s x y = Inr s)
   \<and> (\<not> (0 \<le> x \<and> x < w \<and> 0 \<le> y \<and> y < h) \<longrightarrow>
        unlock_cell (initialize s a' w h) x y = Inr (initialize s a' w h))"
proof (intro conjI allI impI)
  fix t
  assume "get_tile a tid = Some t" "is_original t"
  then show "remove_tile a tid = (Some ValueError, a)"
    by (simp add: remove_tile_def)
next
  assume "map_of (cells s) (x, y) = None"
  then show "unlock_cell s x y = Inr s"
    by (simp add: unlock_cell_def)
next
  assume "\<not> (0 \<le> x \<and> x < w \<and> 0 \<le> y \<and> y < h)"
  then have "map_of (cells (initialize s a' w h)) (x, y) = None"
    using initialize_keys [of s a' w h x y] by blast
  then show "unlock_cell (initialize s a' w h) x y = Inr (initialize s a' w h)"
    by (simp add: unlock_cell_def)
qed

theorem remove_identity_raises_unlock_outside_returns_witness:
  "get_tile atlas_S3 ''A'' = Some (mk_Tile ''A'' ''A'' 0 False False)
   \<and> is_original (mk_Tile ''A'' ''A'' 0 False False)
   \<and> remove_tile atlas_S3 ''A'' = (Some ValueError, atlas_S3)
   \<and> map_of (cells engine_S5) (5, 5) = None
   \<and> unlock_cell engine_S5 5 5 = Inr engine_S5
   \<and> \<not> (0 \<le> (2::int) \<and> (2::int) < 2 \<and> 0 \<le> (0::int) \<and> (0::int) < 1)
   \<and> unlock_cell (initialize new_engine atlas_S5 2 1) 2 0 = Inr (initialize new_engine atlas_S5 2 1)"
proof -
  have g: "get_tile atlas_S3 ''A'' = Some (mk_Tile ''A'' ''A'' 0 False False)"
    by code_simp
  have o: "is_original (mk_Tile ''A'' ''A'' 0 False False)"
    by code_simp
  have m: "map_of (cells engine_S5) (5, 5) = None"
    by code_simp
  have b: "\<not> (0 \<le> (2::int) \<and> (2::int) < 2 \<and> 0 \<le> (0::int) \<and> (0::int) < 1)"
    by simp
  from remove_identity_raises_unlock_outside_returns [of atlas_S3 "''A''"] g o
  have r: "remove_tile atlas_S3 ''A'' = (Some ValueError, atlas_S3)"
    by blast
  from remove_identity_raises_unlock_outside_returns [where s = engine_S5 and x = 5 and y = 5] m
  have u: "unlock_cell engine_S5 5 5 = Inr engine_S5"
    by blast
  from remove_identity_raises_unlock_outside_returns
         [where s = new_engine and a' = atlas_S5 and w = 2 and h = 1 and x = 2 and y = 0] b
  have u': "unlock_cell (initialize new_engine atlas_S5 2 1) 2 0 = Inr (initialize new_engine atlas_S5 2 1)"
    by blast
  from g o r m u b u' show ?thesis
    by blast
qed


text \<open>
  C9: \<open>initialize\<close> establishes, and \<open>lock_cell\<close>, \<open>unlock_cell\<close>, \<open>_step\<close>, \<open>_propagate\<close>,
  \<open>reset\<close> and \<open>clear_all\<close> preserve, the invariant of the cells: a cell with a collapsed
  tile has exactly that tile as its possibilities, and a locked cell has a collapsed tile.
\<close>

theorem engine_operations_preserve_cell_inv:
  "cell_inv (initialize s a w h)
   \<and> (cell_inv s \<longrightarrow> (\<forall>s'. lock_cell s x y t = Inr s' \<longrightarrow> cell_inv s'))
   \<and> (cell_inv s \<longrightarrow> (\<forall>s'. unlock_cell s x y = Inr s' \<longrightarrow> cell_inv s'))
   \<and> (cell_inv s \<longrightarrow> (\<forall>s'. priv_step s chosen t = Some (Inr s') \<longrightarrow> cell_inv s'))
   \<and> (cell_inv s \<longrightarrow> (\<forall>s'. priv_propagate s x y = Inr s' \<longrightarrow> cell_inv s'))
   \<and> (cell_inv s \<longrightarrow> (\<forall>s'. reset s = Inr s' \<longrightarrow> cell_inv s'))
   \<and> (cell_inv s \<longrightarrow> cell_inv (clear_all s))"
  by (auto simp: initialize_cell_inv clear_all_cell_inv
      intro: lock_cell_cell_inv unlock_cell_cell_inv priv_step_cell_inv
        priv_propagate_cell_inv reset_cell_inv)

theorem engine_operations_preserve_cell_inv_witness:
  "cell_inv engine_S5
   \<and> observe cell_inv (Some (lock_cell engine_S5 0 0 ''Y'')) = Some (Inr True)
   \<and> cell_inv engine_pair_X
   \<and> observe cell_inv (priv_step engine_pair_X (1, 0) ''X'') = Some (Inr True)
   \<and> observe cell_inv (Some (priv_propagate engine_pair_X 0 0)) = Some (Inr True)
   \<and> cell_inv engine_pair_XX
   \<and> observe cell_inv (Some (unlock_cell engine_pair_XX 0 0)) = Some (Inr True)
   \<and> observe cell_inv (Some (reset engine_pair_XX)) = Some (Inr True)
   \<and> cell_inv (clear_all engine_pair_XX)"
proof -
  note inv = engine_operations_preserve_cell_inv
  have i5: "cell_inv engine_S5"
    unfolding engine_S5_def using inv by blast
  have iX: "cell_inv engine_pair_X"
    by code_simp
  have iXX: "cell_inv engine_pair_XX"
    by code_simp
  have "observe (\<lambda>s. True) (Some (lock_cell engine_S5 0 0 ''Y'')) = Some (Inr True)"
    by code_simp
  then obtain s1 where s1: "lock_cell engine_S5 0 0 ''Y'' = Inr s1"
    by (auto simp: observe_Inr)
  with inv [where s = engine_S5 and x = 0 and y = 0 and t = "''Y''"] i5 have "cell_inv s1"
    by blast
  with s1 have l: "observe cell_inv (Some (lock_cell engine_S5 0 0 ''Y'')) = Some (Inr True)"
    by (simp add: observe_def)
  have "observe (\<lambda>s. True) (priv_step engine_pair_X (1, 0) ''X'') = Some (Inr True)"
    by code_simp
  then obtain s2 where s2: "priv_step engine_pair_X (1, 0) ''X'' = Some (Inr s2)"
    by (auto simp: observe_Inr)
  with inv [where s = engine_pair_X and t = "''X''" and chosen = "(1, 0)"] iX have "cell_inv s2"
    by blast
  with s2 have st: "observe cell_inv (priv_step engine_pair_X (1, 0) ''X'') = Some (Inr True)"
    by (simp add: observe_def)
  have "observe (\<lambda>s. True) (Some (priv_propagate engine_pair_X 0 0)) = Some (Inr True)"
    by code_simp
  then obtain s3 where s3: "priv_propagate engine_pair_X 0 0 = Inr s3"
    by (auto simp: observe_Inr)
  with inv [where s = engine_pair_X and x = 0 and y = 0] iX have "cell_inv s3"
    by blast
  with s3 have pr: "observe cell_inv (Some (priv_propagate engine_pair_X 0 0)) = Some (Inr True)"
    by (simp add: observe_def)
  have "observe (\<lambda>s. True) (Some (unlock_cell engine_pair_XX 0 0)) = Some (Inr True)"
    by code_simp
  then obtain s4 where s4: "unlock_cell engine_pair_XX 0 0 = Inr s4"
    by (auto simp: observe_Inr)
  with inv [where s = engine_pair_XX and x = 0 and y = 0] iXX have "cell_inv s4"
    by blast
  with s4 have un: "observe cell_inv (Some (unlock_cell engine_pair_XX 0 0)) = Some (Inr True)"
    by (simp add: observe_def)
  have "observe (\<lambda>s. True) (Some (reset engine_pair_XX)) = Some (Inr True)"
    by code_simp
  then obtain s5 where s5: "reset engine_pair_XX = Inr s5"
    by (auto simp: observe_Inr)
  with inv [where s = engine_pair_XX] iXX have "cell_inv s5"
    by blast
  with s5 have re: "observe cell_inv (Some (reset engine_pair_XX)) = Some (Inr True)"
    by (simp add: observe_def)
  from inv [where s = engine_pair_XX] iXX have cl: "cell_inv (clear_all engine_pair_XX)"
    by blast
  from i5 l iX st pr iXX un re cl show ?thesis
    by blast
qed


text \<open>
  C10: for a cell of the grid, \<open>lock_cell\<close> passes the engine to \<open>_propagate\<close> with the count
  of collapsed cells as it was before the call, whatever the cell held; the
  \<open>progress_updated\<close> signal that \<open>lock_cell\<close> emits after \<open>cell_collapsed\<close> carries that
  count.
\<close>

theorem lock_cell_never_counts_its_collapse:
  "map_of (cells s) (x, y) = Some c \<Longrightarrow>
     lock_cell s x y t =
       priv_propagate
         (s\<lparr>cells := AList.update (x, y)
                       (c\<lparr>collapsed_tile := Some t, locked := True, possibilities := {t}\<rparr>) (cells s),
            emitted := emitted s @
              [cell_collapsed x y t, progress_updated (collapsed_count s) (total_cells s)]\<rparr>) x y
     \<and> (\<forall>s'. lock_cell s x y t = Inr s' \<longrightarrow>
           (\<exists>ev. emitted s' = emitted s @
                    [cell_collapsed x y t, progress_updated (collapsed_count s) (total_cells s)] @ ev))"
proof (intro conjI allI impI)
  assume c: "map_of (cells s) (x, y) = Some c"
  show u: "lock_cell s x y t =
       priv_propagate
         (s\<lparr>cells := AList.update (x, y)
                       (c\<lparr>collapsed_tile := Some t, locked := True, possibilities := {t}\<rparr>) (cells s),
            emitted := emitted s @
              [cell_collapsed x y t, progress_updated (collapsed_count s) (total_cells s)]\<rparr>) x y"
    by (rule lock_cell_unfold [OF c])
  fix s'
  assume "lock_cell s x y t = Inr s'"
  with u have "frame
         (s\<lparr>cells := AList.update (x, y)
                       (c\<lparr>collapsed_tile := Some t, locked := True, possibilities := {t}\<rparr>) (cells s),
            emitted := emitted s @
              [cell_collapsed x y t, progress_updated (collapsed_count s) (total_cells s)]\<rparr>) s'"
    by (simp add: priv_propagate_frame)
  then show "\<exists>ev. emitted s' = emitted s @
                    [cell_collapsed x y t, progress_updated (collapsed_count s) (total_cells s)] @ ev"
    by (auto simp: frame_def)
qed

theorem lock_cell_never_counts_its_collapse_witness:
  "map_option is_collapsed (map_of (cells engine_S5) (0, 0)) = Some False
   \<and> collapsed_count engine_S5 = 0 \<and> total_cells engine_S5 = 2
   \<and> (\<exists>s' ev. lock_cell engine_S5 0 0 ''Y'' = Inr s'
         \<and> emitted s' = emitted engine_S5 @
              [cell_collapsed 0 0 ''Y'', progress_updated 0 2] @ ev)
   \<and> observe (\<lambda>s. (collapsed_count s, emitted s)) (Some (lock_cell engine_S5 0 0 ''Y''))
       = Some (Inr (0, [progress_updated 0 2, cell_collapsed 0 0 ''Y'', progress_updated 0 2,
                        cell_updated 1 0]))"
proof -
  have u: "map_option is_collapsed (map_of (cells engine_S5) (0, 0)) = Some False"
    by code_simp
  then obtain c where c: "map_of (cells engine_S5) (0, 0) = Some c"
    by auto
  have n: "collapsed_count engine_S5 = 0" "total_cells engine_S5 = 2"
    by code_simp+
  have o: "observe (\<lambda>s. (collapsed_count s, emitted s)) (Some (lock_cell engine_S5 0 0 ''Y''))
       = Some (Inr (0, [progress_updated 0 2, cell_collapsed 0 0 ''Y'', progress_updated 0 2,
                        cell_updated 1 0]))"
    by code_simp
  then obtain s' where l: "lock_cell engine_S5 0 0 ''Y'' = Inr s'"
    by (auto simp: observe_Inr)
  from lock_cell_never_counts_its_collapse [OF c, of "''Y''"] l n
  have "\<exists>ev. emitted s' = emitted engine_S5 @
              [cell_collapsed 0 0 ''Y'', progress_updated 0 2] @ ev"
    by simp
  with l u n o show ?thesis
    by blast
qed


end
